theory Spec2Isabelle
  imports Complex_Main "HOL-Library.Word" "HOL-Library.Log_Nat"
begin

section \<open>The expression evaluator of the calculator (src/app.js)\<close>

text \<open>
  The pipeline of \<^verbatim>\<open>app.js\<close>: \<^verbatim>\<open>tokenize\<close> (lines 193-225), \<^verbatim>\<open>toRpn\<close>
  (227-289), \<^verbatim>\<open>evalRpn\<close> (291-334) and \<^verbatim>\<open>evaluate\<close> (336-341), together with
  \<^verbatim>\<open>formatNumber\<close> (29-34). A thrown \<^verbatim>\<open>Error\<close> is a value \<open>Inl e\<close>; a JavaScript
  string is a list of UTF-16 code units; a JavaScript number is an IEEE 754 binary64
  value.
\<close>

subsection \<open>Strings\<close>

type_synonym jschar = "16 word"
type_synonym jsstring = "jschar list"

text \<open>An ASCII literal as a JavaScript string.\<close>

definition js :: "string \<Rightarrow> jsstring" where
  "js s = map of_char s"

text \<open>The class \<^verbatim>\<open>\d\<close> (without the unicode flag: the ten ASCII digits).\<close>

definition is_digit :: "jschar \<Rightarrow> bool" where
  "is_digit c = (48 \<le> c \<and> c \<le> 57)"

text \<open>
  The class \<^verbatim>\<open>\s\<close>: the WhiteSpace and LineTerminator code points of ECMAScript
  (TAB, LF, VT, FF, CR, SP, NBSP, U+1680, U+2000..U+200A, U+2028, U+2029, U+202F,
  U+205F, U+3000, U+FEFF).
\<close>

definition is_space :: "jschar \<Rightarrow> bool" where
  "is_space c =
     ((9 \<le> c \<and> c \<le> 13) \<or> c = 32 \<or> c = 160 \<or> c = 5760 \<or> (8192 \<le> c \<and> c \<le> 8202)
      \<or> c = 8232 \<or> c = 8233 \<or> c = 8239 \<or> c = 8287 \<or> c = 12288 \<or> c = 65279)"

definition ch_dot :: jschar where "ch_dot = 46"
definition ch_lparen :: jschar where "ch_lparen = 40"
definition ch_rparen :: jschar where "ch_rparen = 41"
definition ch_plus :: jschar where "ch_plus = 43"
definition ch_minus :: jschar where "ch_minus = 45"
definition ch_star :: jschar where "ch_star = 42"
definition ch_slash :: jschar where "ch_slash = 47"
definition ch_zero :: jschar where "ch_zero = 48"
definition ch_e :: jschar where "ch_e = 101"
definition ch_E :: jschar where "ch_E = 69"

subsection \<open>Regular expressions\<close>

text \<open>
  The patterns of the source are written as values of \<open>regex\<close>; \<open>matches r w\<close> says
  that \<open>r\<close> matches the whole of \<open>w\<close> (the pattern between \<^verbatim>\<open>^\<close> and \<^verbatim>\<open>$\<close>), and is
  computed with derivatives.
\<close>

datatype regex =
    Void
  | Eps
  | Cls "jschar \<Rightarrow> bool"
  | Seq regex regex
  | Alt regex regex
  | Star regex

fun nullable :: "regex \<Rightarrow> bool" where
  "nullable Void = False"
| "nullable Eps = True"
| "nullable (Cls P) = False"
| "nullable (Seq r s) = (nullable r \<and> nullable s)"
| "nullable (Alt r s) = (nullable r \<or> nullable s)"
| "nullable (Star r) = True"

fun deriv :: "jschar \<Rightarrow> regex \<Rightarrow> regex" where
  "deriv c Void = Void"
| "deriv c Eps = Void"
| "deriv c (Cls P) = (if P c then Eps else Void)"
| "deriv c (Seq r s) =
     (if nullable r then Alt (Seq (deriv c r) s) (deriv c s) else Seq (deriv c r) s)"
| "deriv c (Alt r s) = Alt (deriv c r) (deriv c s)"
| "deriv c (Star r) = Seq (deriv c r) (Star r)"

fun matches :: "regex \<Rightarrow> jsstring \<Rightarrow> bool" where
  "matches r [] = nullable r"
| "matches r (c # w) = matches (deriv c r) w"

definition Opt :: "regex \<Rightarrow> regex" where
  "Opt r = Alt r Eps"

definition Plus1 :: "regex \<Rightarrow> regex" where
  "Plus1 r = Seq r (Star r)"

text \<open>Line 204: \<^verbatim>\<open>/^\d*\.?\d+$/\<close>.\<close>

definition number_re :: regex where
  "number_re = Seq (Star (Cls is_digit)) (Seq (Opt (Cls (\<lambda>c. c = ch_dot))) (Plus1 (Cls is_digit)))"

subsection \<open>Numbers: IEEE 754 binary64\<close>

text \<open>
  A finite double is kept as the rational it denotes; the negative zero is a value of
  its own (\<open>Finite 0\<close> is the positive zero). Every operation computes the exact
  rational result and rounds it to the nearest double, ties to even (\<open>round64\<close>).
\<close>

datatype f64 = Finite rat | NegZero | PosInf | NegInf | NaN

text \<open>
  \<open>ilog b a\<close> is \<open>\<lfloor>log\<^sub>b a\<rfloor>\<close> for a positive rational \<open>a\<close> and a base \<open>b > 1\<close>: the
  difference of the digit counts of numerator and denominator, or one less.
\<close>

definition ilog :: "nat \<Rightarrow> rat \<Rightarrow> int" where
  "ilog b a =
     (let (p, q) = quotient_of a; d = int (floorlog b (nat p)) - int (floorlog b (nat q))
      in if of_nat b powi d \<le> a then d else d - 1)"

definition round_half_even :: "rat \<Rightarrow> int" where
  "round_half_even x =
     (let f = \<lfloor>x\<rfloor>; d = x - of_int f
      in if d < 1 / 2 then f else if 1 / 2 < d then f + 1 else if even f then f else f + 1)"

text \<open>
  The exponent of the last place of a double of magnitude \<open>a\<close>: 52 binary places below
  the leading bit, and never below \<open>2\<^sup>-\<^sup>1\<^sup>0\<^sup>7\<^sup>4\<close> (the subnormal range).
\<close>

definition ulp_exp :: "rat \<Rightarrow> int" where
  "ulp_exp a = (let e = ilog 2 a in if e < - 1022 then - 1074 else e - 52)"

text \<open>
  The Number value for a rational \<open>q\<close>: the nearest double, ties to even, with
  \<open>2\<^sup>1\<^sup>0\<^sup>2\<^sup>4\<close> and beyond replaced by an infinity.
\<close>

definition round64 :: "rat \<Rightarrow> f64" where
  "round64 q =
     (if q = 0 then Finite 0
      else
        let a = \<bar>q\<bar>; k = ulp_exp a;
            r = of_int (round_half_even (a / 2 powi k)) * 2 powi k
        in if 2 powi 1024 \<le> r then (if q < 0 then NegInf else PosInf)
           else if r = 0 then (if q < 0 then NegZero else Finite 0)
           else Finite (if q < 0 then - r else r))"

text \<open>\<^verbatim>\<open>Number.isFinite\<close> on a number.\<close>

fun isFinite :: "f64 \<Rightarrow> bool" where
  "isFinite (Finite q) = True"
| "isFinite NegZero = True"
| "isFinite PosInf = False"
| "isFinite NegInf = False"
| "isFinite NaN = False"

fun is_zero :: "f64 \<Rightarrow> bool" where
  "is_zero (Finite q) = (q = 0)"
| "is_zero NegZero = True"
| "is_zero x = False"

fun is_inf :: "f64 \<Rightarrow> bool" where
  "is_inf PosInf = True"
| "is_inf NegInf = True"
| "is_inf x = False"

text \<open>The sign bit.\<close>

fun negative :: "f64 \<Rightarrow> bool" where
  "negative (Finite q) = (q < 0)"
| "negative NegZero = True"
| "negative NegInf = True"
| "negative x = False"

fun val :: "f64 \<Rightarrow> rat" where
  "val (Finite q) = q"
| "val x = 0"

definition signed_zero :: "bool \<Rightarrow> f64" where
  "signed_zero neg = (if neg then NegZero else Finite 0)"

definition signed_inf :: "bool \<Rightarrow> f64" where
  "signed_inf neg = (if neg then NegInf else PosInf)"

text \<open>Unary minus flips the sign bit; unary plus on a number is the identity.\<close>

fun js_neg :: "f64 \<Rightarrow> f64" where
  "js_neg (Finite q) = (if q = 0 then NegZero else Finite (- q))"
| "js_neg NegZero = Finite 0"
| "js_neg PosInf = NegInf"
| "js_neg NegInf = PosInf"
| "js_neg NaN = NaN"

definition js_pos :: "f64 \<Rightarrow> f64" where
  "js_pos a = a"

definition js_add :: "f64 \<Rightarrow> f64 \<Rightarrow> f64" where
  "js_add a b =
     (if a = NaN \<or> b = NaN then NaN
      else if is_inf a then (if is_inf b \<and> a \<noteq> b then NaN else a)
      else if is_inf b then b
      else if is_zero a \<and> is_zero b then signed_zero (negative a \<and> negative b)
      else round64 (val a + val b))"

definition js_sub :: "f64 \<Rightarrow> f64 \<Rightarrow> f64" where
  "js_sub a b = js_add a (js_neg b)"

definition js_mul :: "f64 \<Rightarrow> f64 \<Rightarrow> f64" where
  "js_mul a b =
     (if a = NaN \<or> b = NaN then NaN
      else if is_inf a \<or> is_inf b then
        (if is_zero a \<or> is_zero b then NaN else signed_inf (negative a \<noteq> negative b))
      else if is_zero a \<or> is_zero b then signed_zero (negative a \<noteq> negative b)
      else
        (case round64 (val a * val b) of
           Finite r \<Rightarrow> if r = 0 then signed_zero (negative a \<noteq> negative b) else Finite r
         | r \<Rightarrow> r))"

definition js_div :: "f64 \<Rightarrow> f64 \<Rightarrow> f64" where
  "js_div a b =
     (if a = NaN \<or> b = NaN then NaN
      else if is_inf a then (if is_inf b then NaN else signed_inf (negative a \<noteq> negative b))
      else if is_inf b then signed_zero (negative a \<noteq> negative b)
      else if is_zero b then (if is_zero a then NaN else signed_inf (negative a \<noteq> negative b))
      else if is_zero a then signed_zero (negative a \<noteq> negative b)
      else round64 (val a / val b))"

text \<open>\<^verbatim>\<open>a === b\<close> on numbers: IEEE equality (the two zeros are equal, NaN equals nothing).\<close>

definition strict_eq :: "f64 \<Rightarrow> f64 \<Rightarrow> bool" where
  "strict_eq a b =
     (if a = NaN \<or> b = NaN then False
      else if is_inf a \<or> is_inf b then a = b
      else val a = val b)"

text \<open>
  \<^verbatim>\<open>Number(str)\<close> on a string, and the unary \<^verbatim>\<open>+str\<close>: ECMAScript's StringToNumber on
  a signed decimal literal (digits with an optional fraction and an optional exponent
  part, or \<^verbatim>\<open>Infinity\<close>). The value of the literal is rounded to the nearest double;
  the empty string is \<open>+0\<close>, a string that is no numeric literal is \<open>NaN\<close>. Surrounding
  white space and the \<^verbatim>\<open>0x\<close>, \<^verbatim>\<open>0o\<close>, \<^verbatim>\<open>0b\<close> literals are left out: the source applies
  \<^verbatim>\<open>Number\<close> to runs of digits and dots (line 205) and to the result of
  \<^verbatim>\<open>toPrecision\<close> (line 33) only. ECMAScript lets an engine round a literal of more
  than 20 significant digits from its first 20 digits; the engines in use round the
  exact value, as here.
\<close>

definition digit_val :: "jschar \<Rightarrow> nat" where
  "digit_val c = unat c - 48"

definition digits_value :: "jsstring \<Rightarrow> nat" where
  "digits_value ds = foldl (\<lambda>acc c. 10 * acc + digit_val c) 0 ds"

text \<open>An optional sign: whether it is \<^verbatim>\<open>-\<close>, and the rest.\<close>

fun strip_sign :: "jsstring \<Rightarrow> bool \<times> jsstring" where
  "strip_sign [] = (False, [])"
| "strip_sign (c # s) =
     (if c = ch_minus then (True, s) else if c = ch_plus then (False, s) else (False, c # s))"

text \<open>The exponent part, empty or \<^verbatim>\<open>e\<close> or \<^verbatim>\<open>E\<close> with a signed integer.\<close>

definition exponent_part :: "jsstring \<Rightarrow> int option" where
  "exponent_part s =
     (case s of
        [] \<Rightarrow> Some 0
      | c # ex \<Rightarrow>
          if c = ch_e \<or> c = ch_E then
            (let (neg, ds) = strip_sign ex
             in if ds \<noteq> [] \<and> list_all is_digit ds
                then Some (if neg then - int (digits_value ds) else int (digits_value ds))
                else None)
          else None)"

text \<open>The mathematical value of an unsigned decimal literal.\<close>

definition unsigned_decimal :: "jsstring \<Rightarrow> rat option" where
  "unsigned_decimal s =
     (let ip = takeWhile is_digit s; r1 = dropWhile is_digit s;
          dotted = (r1 \<noteq> [] \<and> hd r1 = ch_dot);
          fp = (if dotted then takeWhile is_digit (tl r1) else []);
          r2 = (if dotted then dropWhile is_digit (tl r1) else r1)
      in if ip = [] \<and> fp = [] then None
         else
           (case exponent_part r2 of
              None \<Rightarrow> None
            | Some ex \<Rightarrow>
                Some ((of_nat (digits_value ip) + of_nat (digits_value fp) / 10 ^ length fp)
                       * 10 powi ex)))"

definition Number :: "jsstring \<Rightarrow> f64" where
  "Number str =
     (if str = [] then Finite 0
      else
        let (neg, s) = strip_sign str;
            v = (if s = js ''Infinity'' then PosInf
                 else (case unsigned_decimal s of None \<Rightarrow> NaN | Some mv \<Rightarrow> round64 mv))
        in if neg then js_neg v else v)"

subsection \<open>Tokens and errors\<close>

text \<open>
  The \<^verbatim>\<open>value\<close> of an \<^verbatim>\<open>op\<close> token: one of \<^verbatim>\<open>+ - * /\<close> from the tokenizer, or
  \<^verbatim>\<open>u+\<close>, \<^verbatim>\<open>u-\<close> made by the converter.
\<close>

datatype opsym = Plus | Minus | Times | Divide | UPlus | UMinus

datatype token = Num f64 | Op opsym | LParen | RParen

text \<open>The messages of the thrown errors, under the names of the specification.\<close>

datatype error =
    InvalidNumber
  | NumberTooLarge
  | UnexpectedCharacter jschar
  | MismatchedParentheses
  | InvalidExpression
  | DivisionByZero
  | ResultNotFinite
  | InvalidToken
  | UnknownOperator

subsection \<open>tokenize\<close>

text \<open>Line 194: \<^verbatim>\<open>input.replace(/\s+/g, "")\<close> deletes every run of white space.\<close>

definition strip_ws :: "jsstring \<Rightarrow> jsstring" where
  "strip_ws input = filter (\<lambda>c. \<not> is_space c) input"

text \<open>Lines 200 and 202: \<^verbatim>\<open>/\d|\./\<close> and \<^verbatim>\<open>/[\d.]/\<close> on one character.\<close>

definition is_num_char :: "jschar \<Rightarrow> bool" where
  "is_num_char c = (is_digit c \<or> c = ch_dot)"

text \<open>\<^verbatim>\<open>isOperator\<close> (lines 36-38), with the operator the character stands for.\<close>

definition isOperator :: "jschar \<Rightarrow> opsym option" where
  "isOperator ch =
     (if ch = ch_plus then Some Plus
      else if ch = ch_minus then Some Minus
      else if ch = ch_star then Some Times
      else if ch = ch_slash then Some Divide
      else None)"

text \<open>
  The loop of lines 198-222 on the characters from index \<open>i\<close> on; \<open>tokens\<close> is the array
  built so far.
\<close>

function tokenize_loop :: "jsstring \<Rightarrow> token list \<Rightarrow> error + token list" where
  "tokenize_loop [] tokens = Inr tokens"
| "tokenize_loop (ch # rest) tokens =
     (if is_num_char ch then
        (let raw = ch # takeWhile is_num_char rest in
         if \<not> matches number_re raw then Inl InvalidNumber
         else if \<not> isFinite (Number raw) then Inl NumberTooLarge
         else tokenize_loop (dropWhile is_num_char rest) (tokens @ [Num (Number raw)]))
      else if ch = ch_lparen then tokenize_loop rest (tokens @ [LParen])
      else if ch = ch_rparen then tokenize_loop rest (tokens @ [RParen])
      else
        (case isOperator ch of
           Some v \<Rightarrow> tokenize_loop rest (tokens @ [Op v])
         | None \<Rightarrow> Inl (UnexpectedCharacter ch)))"
  by pat_completeness auto
termination
  by (relation "measure (\<lambda>(s, tokens). length s)")
     (auto simp: less_Suc_eq_le length_dropWhile_le)

definition tokenize :: "jsstring \<Rightarrow> error + token list" where
  "tokenize input = tokenize_loop (strip_ws input) []"

subsection \<open>toRpn\<close>

fun prec :: "opsym \<Rightarrow> nat" where
  "prec UPlus = 3"
| "prec UMinus = 3"
| "prec Times = 2"
| "prec Divide = 2"
| "prec Plus = 1"
| "prec Minus = 1"

fun rightAssoc :: "opsym \<Rightarrow> bool" where
  "rightAssoc UPlus = True"
| "rightAssoc UMinus = True"
| "rightAssoc v = False"

text \<open>
  The converter's state is the pair of \<^verbatim>\<open>out\<close> (in order) and \<^verbatim>\<open>ops\<close> (a stack: its
  head is the top, the last element of the array).
\<close>

type_synonym rpn_state = "token list \<times> token list"

text \<open>\<^verbatim>\<open>pushOp\<close>, lines 234-250.\<close>

fun pushOp :: "opsym \<Rightarrow> rpn_state \<Rightarrow> rpn_state" where
  "pushOp a (out, []) = (out, [Op a])"
| "pushOp a (out, Op b # ops) =
     (if (rightAssoc a \<and> prec a < prec b) \<or> (\<not> rightAssoc a \<and> prec a \<le> prec b)
      then pushOp a (out @ [Op b], ops)
      else (out, Op a # Op b # ops))"
| "pushOp a (out, t # ops) = (out, Op a # t # ops)"

text \<open>Lines 263-265: pop to the output down to the nearest \<^verbatim>\<open>(\<close>, which is dropped.\<close>

fun closeParen :: "rpn_state \<Rightarrow> error + rpn_state" where
  "closeParen (out, []) = Inl MismatchedParentheses"
| "closeParen (out, LParen # ops) = Inr (out, ops)"
| "closeParen (out, t # ops) = closeParen (out @ [t], ops)"

text \<open>Lines 282-286: pop what is left.\<close>

fun drain :: "token list \<Rightarrow> token list \<Rightarrow> error + token list" where
  "drain out [] = Inr out"
| "drain out (LParen # ops) = Inl MismatchedParentheses"
| "drain out (t # ops) = drain (out @ [t]) ops"

fun is_op :: "token \<Rightarrow> bool" where
  "is_op (Op v) = True"
| "is_op t = False"

text \<open>
  Line 271: \<^verbatim>\<open>!prev || prev.type === "op" || prev.type === "("\<close>, where \<open>prev\<close> is
  \<^verbatim>\<open>tokens[idx - 1]\<close>: \<open>None\<close> at index 0 (\<^verbatim>\<open>undefined\<close>).
\<close>

definition unary_position :: "token option \<Rightarrow> bool" where
  "unary_position prev = (case prev of None \<Rightarrow> True | Some p \<Rightarrow> is_op p \<or> p = LParen)"

text \<open>The loop of lines 252-280 on the tokens from index \<open>idx\<close> on, then lines 282-288.\<close>

fun toRpn_loop :: "token option \<Rightarrow> token list \<Rightarrow> rpn_state \<Rightarrow> error + token list" where
  "toRpn_loop prev [] (out, ops) = drain out ops"
| "toRpn_loop prev (Num v # ts) (out, ops) = toRpn_loop (Some (Num v)) ts (out @ [Num v], ops)"
| "toRpn_loop prev (LParen # ts) (out, ops) = toRpn_loop (Some LParen) ts (out, LParen # ops)"
| "toRpn_loop prev (RParen # ts) (out, ops) =
     (case closeParen (out, ops) of
        Inl e \<Rightarrow> Inl e
      | Inr st \<Rightarrow> toRpn_loop (Some RParen) ts st)"
| "toRpn_loop prev (Op v # ts) (out, ops) =
     (if unary_position prev \<and> (v = Plus \<or> v = Minus)
      then toRpn_loop (Some (Op v)) ts (pushOp (if v = Plus then UPlus else UMinus) (out, ops))
      else toRpn_loop (Some (Op v)) ts (pushOp v (out, ops)))"

definition toRpn :: "token list \<Rightarrow> error + token list" where
  "toRpn tokens = toRpn_loop None tokens ([], [])"

subsection \<open>evalRpn and evaluate\<close>

text \<open>The \<^verbatim>\<open>switch\<close> of lines 309-325.\<close>

fun binop :: "opsym \<Rightarrow> f64 \<Rightarrow> f64 \<Rightarrow> error + f64" where
  "binop Plus a b = Inr (js_add a b)"
| "binop Minus a b = Inr (js_sub a b)"
| "binop Times a b = Inr (js_mul a b)"
| "binop Divide a b = (if strict_eq b (Finite 0) then Inl DivisionByZero else Inr (js_div a b))"
| "binop v a b = Inl UnknownOperator"

text \<open>
  The loop of lines 293-331; the stack \<^verbatim>\<open>st\<close> has its top at the head of the list.
\<close>

fun evalRpn_loop :: "token list \<Rightarrow> f64 list \<Rightarrow> error + f64 list" where
  "evalRpn_loop [] st = Inr st"
| "evalRpn_loop (Num v # ts) st = evalRpn_loop ts (v # st)"
| "evalRpn_loop (Op v # ts) st =
     (if v = UPlus \<or> v = UMinus then
        (case st of
           [] \<Rightarrow> Inl InvalidExpression
         | a # st' \<Rightarrow> evalRpn_loop ts ((if v = UMinus then js_neg a else js_pos a) # st'))
      else
        (case st of
           b # a # st' \<Rightarrow>
             (case binop v a b of
                Inl e \<Rightarrow> Inl e
              | Inr r \<Rightarrow> if \<not> isFinite r then Inl ResultNotFinite else evalRpn_loop ts (r # st'))
         | _ \<Rightarrow> Inl InvalidExpression))"
| "evalRpn_loop (t # ts) st = Inl InvalidToken"

definition evalRpn :: "token list \<Rightarrow> error + f64" where
  "evalRpn rpn =
     (case evalRpn_loop rpn [] of
        Inl e \<Rightarrow> Inl e
      | Inr st \<Rightarrow> (case st of [v] \<Rightarrow> Inr v | _ \<Rightarrow> Inl InvalidExpression))"

definition evaluate :: "jsstring \<Rightarrow> error + f64" where
  "evaluate input =
     (case tokenize input of
        Inl e \<Rightarrow> Inl e
      | Inr tokens \<Rightarrow>
          if tokens = [] then Inr (Finite 0)
          else (case toRpn tokens of Inl e \<Rightarrow> Inl e | Inr rpn \<Rightarrow> evalRpn rpn))"

subsection \<open>Balanced parentheses\<close>

text \<open>
  What the specification calls balanced, by counting: \<open>parens_balanced d ts\<close> says that
  in \<open>ts\<close>, read after \<open>d\<close> parentheses were opened, no \<^verbatim>\<open>)\<close> comes without an open
  \<^verbatim>\<open>(\<close> and none stays open at the end. \<open>open_parens ops\<close> counts the \<^verbatim>\<open>(\<close> on the
  converter's stack.
\<close>

fun parens_balanced :: "nat \<Rightarrow> token list \<Rightarrow> bool" where
  "parens_balanced d [] = (d = 0)"
| "parens_balanced d (LParen # ts) = parens_balanced (Suc d) ts"
| "parens_balanced d (RParen # ts) = (case d of 0 \<Rightarrow> False | Suc d' \<Rightarrow> parens_balanced d' ts)"
| "parens_balanced d (t # ts) = parens_balanced d ts"

definition open_parens :: "token list \<Rightarrow> nat" where
  "open_parens ops = length (filter (\<lambda>t. t = LParen) ops)"

subsection \<open>The classification of operators, after the specification\<close>

text \<open>
  The specification's rule, on positions: an operator token is unary if it is the first
  token, or if the token before it is an operator or \<^verbatim>\<open>(\<close>; only \<^verbatim>\<open>+\<close> and \<^verbatim>\<open>-\<close> may
  be unary. \<open>disambiguate\<close> rewrites the tokens so; \<open>shunting_yard\<close> is the converter
  on tokens that are classified already (it looks at no previous token).
\<close>

definition is_unary_at :: "token list \<Rightarrow> nat \<Rightarrow> bool" where
  "is_unary_at ts i = (i = 0 \<or> is_op (ts ! (i - 1)) \<or> ts ! (i - 1) = LParen)"

definition disambiguate_at :: "token list \<Rightarrow> nat \<Rightarrow> token" where
  "disambiguate_at ts i =
     (if ts ! i = Op Plus \<and> is_unary_at ts i then Op UPlus
      else if ts ! i = Op Minus \<and> is_unary_at ts i then Op UMinus
      else ts ! i)"

definition disambiguate :: "token list \<Rightarrow> token list" where
  "disambiguate ts = map (disambiguate_at ts) [0..<length ts]"

fun shunting_yard_loop :: "token list \<Rightarrow> rpn_state \<Rightarrow> error + token list" where
  "shunting_yard_loop [] (out, ops) = drain out ops"
| "shunting_yard_loop (Num v # ts) (out, ops) = shunting_yard_loop ts (out @ [Num v], ops)"
| "shunting_yard_loop (LParen # ts) (out, ops) = shunting_yard_loop ts (out, LParen # ops)"
| "shunting_yard_loop (RParen # ts) (out, ops) =
     (case closeParen (out, ops) of
        Inl e \<Rightarrow> Inl e
      | Inr st \<Rightarrow> shunting_yard_loop ts st)"
| "shunting_yard_loop (Op v # ts) (out, ops) = shunting_yard_loop ts (pushOp v (out, ops))"

definition shunting_yard :: "token list \<Rightarrow> error + token list" where
  "shunting_yard ts = shunting_yard_loop ts ([], [])"

text \<open>The same classification, token by token with the previous token at hand.\<close>

fun disamb :: "token option \<Rightarrow> token list \<Rightarrow> token list" where
  "disamb prev [] = []"
| "disamb prev (t # ts) =
     (if t = Op Plus \<and> unary_position prev then Op UPlus
      else if t = Op Minus \<and> unary_position prev then Op UMinus
      else t) # disamb (Some t) ts"

subsection \<open>The language of a regular expression\<close>

text \<open>The strings that a pattern matches, as a set: what \<open>matches\<close> computes.\<close>

definition conc :: "jsstring set \<Rightarrow> jsstring set \<Rightarrow> jsstring set" where
  "conc A B = {u @ v | u v. u \<in> A \<and> v \<in> B}"

inductive_set star :: "jsstring set \<Rightarrow> jsstring set" for A :: "jsstring set" where
  star_empty: "[] \<in> star A"
| star_step: "u \<in> A \<Longrightarrow> v \<in> star A \<Longrightarrow> u @ v \<in> star A"

fun lang :: "regex \<Rightarrow> jsstring set" where
  "lang Void = {}"
| "lang Eps = {[]}"
| "lang (Cls P) = {[c] | c. P c}"
| "lang (Seq r s) = conc (lang r) (lang s)"
| "lang (Alt r s) = lang r \<union> lang s"
| "lang (Star r) = star (lang r)"

text \<open>The shape of a run that the pattern accepts.\<close>

definition well_formed_run :: "jsstring \<Rightarrow> bool" where
  "well_formed_run raw = (count_list raw ch_dot \<le> 1 \<and> raw \<noteq> [] \<and> is_digit (last raw))"

text \<open>A token that holds no number, or a finite one.\<close>

fun token_finite :: "token \<Rightarrow> bool" where
  "token_finite (Num v) = isFinite v"
| "token_finite t = True"

subsection \<open>Expressions without parentheses, after the specification\<close>

text \<open>
  The specification gives \<^verbatim>\<open>*\<close> and \<^verbatim>\<open>/\<close> one precedence, above that of \<^verbatim>\<open>+\<close> and
  \<^verbatim>\<open>-\<close>, and makes the four left associative. So an expression of numbers and binary
  operators, without parentheses, is a sum of products: a product is a number followed
  by factors (\<^verbatim>\<open>*\<close> or \<^verbatim>\<open>/\<close>, and a number), a sum is a product followed by terms
  (\<^verbatim>\<open>+\<close> or \<^verbatim>\<open>-\<close>, and a product). Its tokens are those of \<open>sum_infix\<close>; its postfix
  sequence and its value are read from the left, the products first.
\<close>

definition is_additive :: "opsym \<Rightarrow> bool" where
  "is_additive v = (v = Plus \<or> v = Minus)"

definition is_multiplicative :: "opsym \<Rightarrow> bool" where
  "is_multiplicative v = (v = Times \<or> v = Divide)"

type_synonym product = "f64 \<times> (opsym \<times> f64) list"

type_synonym sum = "product \<times> (opsym \<times> product) list"

definition product_ok :: "product \<Rightarrow> bool" where
  "product_ok p = list_all (\<lambda>f. is_multiplicative (fst f)) (snd p)"

definition sum_ok :: "sum \<Rightarrow> bool" where
  "sum_ok s = (product_ok (fst s) \<and> list_all (\<lambda>t. is_additive (fst t) \<and> product_ok (snd t)) (snd s))"

fun factors_infix :: "(opsym \<times> f64) list \<Rightarrow> token list" where
  "factors_infix [] = []"
| "factors_infix ((v, x) # fs) = Op v # Num x # factors_infix fs"

fun product_infix :: "product \<Rightarrow> token list" where
  "product_infix (x, fs) = Num x # factors_infix fs"

fun terms_infix :: "(opsym \<times> product) list \<Rightarrow> token list" where
  "terms_infix [] = []"
| "terms_infix ((w, p) # ts) = Op w # product_infix p @ terms_infix ts"

fun sum_infix :: "sum \<Rightarrow> token list" where
  "sum_infix (p, ts) = product_infix p @ terms_infix ts"

text \<open>In postfix order every operator follows its right operand.\<close>

fun factors_postfix :: "(opsym \<times> f64) list \<Rightarrow> token list" where
  "factors_postfix [] = []"
| "factors_postfix ((v, x) # fs) = Num x # Op v # factors_postfix fs"

fun product_postfix :: "product \<Rightarrow> token list" where
  "product_postfix (x, fs) = Num x # factors_postfix fs"

fun terms_postfix :: "(opsym \<times> product) list \<Rightarrow> token list" where
  "terms_postfix [] = []"
| "terms_postfix ((w, p) # ts) = product_postfix p @ Op w # terms_postfix ts"

fun sum_postfix :: "sum \<Rightarrow> token list" where
  "sum_postfix (p, ts) = product_postfix p @ terms_postfix ts"

text \<open>
  One binary operation with the check of line 326, and the value of a sum: the
  operations are applied from the left, a product before the \<^verbatim>\<open>+\<close> or \<^verbatim>\<open>-\<close> that
  takes it.
\<close>

definition apply_binary :: "opsym \<Rightarrow> f64 \<Rightarrow> f64 \<Rightarrow> error + f64" where
  "apply_binary v a b =
     (case binop v a b of
        Inl e \<Rightarrow> Inl e
      | Inr r \<Rightarrow> if isFinite r then Inr r else Inl ResultNotFinite)"

fun left_fold :: "f64 \<Rightarrow> (opsym \<times> f64) list \<Rightarrow> error + f64" where
  "left_fold a [] = Inr a"
| "left_fold a ((v, x) # fs) =
     (case apply_binary v a x of Inl e \<Rightarrow> Inl e | Inr r \<Rightarrow> left_fold r fs)"

fun product_value :: "product \<Rightarrow> error + f64" where
  "product_value (x, fs) = left_fold x fs"

fun terms_value :: "f64 \<Rightarrow> (opsym \<times> product) list \<Rightarrow> error + f64" where
  "terms_value a [] = Inr a"
| "terms_value a ((w, p) # ts) =
     (case product_value p of
        Inl e \<Rightarrow> Inl e
      | Inr b \<Rightarrow> (case apply_binary w a b of Inl e \<Rightarrow> Inl e | Inr r \<Rightarrow> terms_value r ts))"

fun sum_value :: "sum \<Rightarrow> error + f64" where
  "sum_value (p, ts) = (case product_value p of Inl e \<Rightarrow> Inl e | Inr a \<Rightarrow> terms_value a ts)"

text \<open>
  What lies on the converter's stack under the operators of a product: nothing, or the
  \<^verbatim>\<open>+\<close> or \<^verbatim>\<open>-\<close> that waits for the product.
\<close>

definition pending :: "token list \<Rightarrow> bool" where
  "pending S = (S = [] \<or> (\<exists>w. is_additive w \<and> S = [Op w]))"

subsection \<open>Signs\<close>

text \<open>
  A run of \<^verbatim>\<open>+\<close> and \<^verbatim>\<open>-\<close> tokens in unary position before a number: line 273 makes
  each the unary operator \<^verbatim>\<open>u+\<close> or \<^verbatim>\<open>u-\<close>. Right associativity applies the sign next
  to the number first, so in postfix order the signs follow the number in reverse.
\<close>

definition is_sign :: "opsym \<Rightarrow> bool" where
  "is_sign v = (v = Plus \<or> v = Minus)"

definition is_unary :: "opsym \<Rightarrow> bool" where
  "is_unary v = (v = UPlus \<or> v = UMinus)"

definition unary_of :: "opsym \<Rightarrow> opsym" where
  "unary_of v = (if v = Plus then UPlus else UMinus)"

fun signs_postfix :: "opsym list \<Rightarrow> token list" where
  "signs_postfix [] = []"
| "signs_postfix (s # ss) = signs_postfix ss @ [Op (unary_of s)]"

subsection \<open>Numbers to strings\<close>

text \<open>
  The built-in conversions that \<^verbatim>\<open>formatNumber\<close> calls, after ECMAScript:
  \<^verbatim>\<open>Number.prototype.toExponential\<close>, \<^verbatim>\<open>Number.prototype.toPrecision\<close> and
  \<^verbatim>\<open>String(n)\<close> (Number::toString with radix 10).
\<close>

definition digit_char :: "nat \<Rightarrow> jschar" where
  "digit_char d = of_nat (48 + d)"

text \<open>The decimal digits of a natural number, the most significant first.\<close>

fun digits_of :: "nat \<Rightarrow> jsstring" where
  "digits_of n = (if n < 10 then [digit_char n] else digits_of (n div 10) @ [digit_char (n mod 10)])"

declare digits_of.simps [simp del]

text \<open>
  For \<open>x > 0\<close>: the integers \<open>n\<close> and \<open>e\<close> with \<open>10\<^sup>p\<^sup>-\<^sup>1 \<le> n < 10\<^sup>p\<close> for which
  \<open>n \<times> 10\<^sup>e\<^sup>-\<^sup>p\<^sup>+\<^sup>1\<close> is nearest to \<open>x\<close>, the larger \<open>n\<close> of two.
\<close>

definition sci_digits :: "nat \<Rightarrow> rat \<Rightarrow> nat \<times> int" where
  "sci_digits p x =
     (let e = ilog 10 x; n = \<lfloor>x / 10 powi (e - int p + 1) + 1 / 2\<rfloor>
      in if n = 10 ^ p then (10 ^ (p - 1), e + 1) else (nat n, e))"

text \<open>The exponent part \<^verbatim>\<open>e+d\<close> or \<^verbatim>\<open>e-d\<close>.\<close>

definition exp_suffix :: "int \<Rightarrow> jsstring" where
  "exp_suffix e = ch_e # (if 0 \<le> e then ch_plus else ch_minus) # digits_of (nat \<bar>e\<bar>)"

text \<open>The first digit, a point when more digits follow, and the other digits.\<close>

definition point_after_first :: "jsstring \<Rightarrow> jsstring" where
  "point_after_first m = (if length m \<le> 1 then m else hd m # ch_dot # tl m)"

definition nonfinite_string :: "f64 \<Rightarrow> jsstring" where
  "nonfinite_string x =
     (if x = PosInf then js ''Infinity'' else if x = NegInf then js ''-Infinity'' else js ''NaN'')"

text \<open>\<^verbatim>\<open>x.toExponential(f)\<close>, with \<open>f\<close> digits after the point.\<close>

definition toExponential :: "nat \<Rightarrow> f64 \<Rightarrow> jsstring" where
  "toExponential f x =
     (if \<not> isFinite x then nonfinite_string x
      else
        let s = (if val x < 0 then [ch_minus] else []); a = \<bar>val x\<bar>
        in if a = 0 then s @ point_after_first (replicate (f + 1) ch_zero) @ exp_suffix 0
           else
             (let (n, e) = sci_digits (f + 1) a
              in s @ point_after_first (digits_of n) @ exp_suffix e))"

text \<open>\<^verbatim>\<open>x.toPrecision(p)\<close>, with \<open>p\<close> significant digits.\<close>

definition toPrecision :: "nat \<Rightarrow> f64 \<Rightarrow> jsstring" where
  "toPrecision p x =
     (if \<not> isFinite x then nonfinite_string x
      else
        let s = (if val x < 0 then [ch_minus] else []); a = \<bar>val x\<bar>;
            (n, e) = (if a = 0 then (0, 0) else sci_digits p a);
            m = (if a = 0 then replicate p ch_zero else digits_of n)
        in if e < - 6 \<or> int p \<le> e then s @ point_after_first m @ exp_suffix e
           else if e = int p - 1 then s @ m
           else if 0 \<le> e then s @ take (nat e + 1) m @ ch_dot # drop (nat e + 1) m
           else s @ ch_zero # ch_dot # replicate (nat (- (e + 1))) ch_zero @ m)"

text \<open>
  For a double \<open>x > 0\<close> and \<open>k\<close> digits: the integers \<open>s\<close> and \<open>n\<close> with
  \<open>10\<^sup>k\<^sup>-\<^sup>1 \<le> s < 10\<^sup>k\<close> for which the Number value of \<open>s \<times> 10\<^sup>n\<^sup>-\<^sup>k\<close> is \<open>x\<close>, if there
  are any: of the two \<open>k\<close>-digit decimals around \<open>x\<close> the nearer one that rounds to \<open>x\<close>
  (the even one of two equally near).
\<close>

definition digits_at :: "rat \<Rightarrow> nat \<Rightarrow> (nat \<times> int) option" where
  "digits_at x k =
     (let n0 = ilog 10 x + 1; u = 10 powi (n0 - int k); y = x / u;
          lo = \<lfloor>y\<rfloor>; hi = \<lceil>y\<rceil>;
          ok_lo = (round64 (of_int lo * u) = Finite x);
          ok_hi = (round64 (of_int hi * u) = Finite x);
          c = (if ok_lo \<and> ok_hi then
                 (if y - of_int lo < of_int hi - y then lo
                  else if of_int hi - y < y - of_int lo then hi
                  else if even lo then lo else hi)
               else if ok_lo then lo else hi)
      in if ok_lo \<or> ok_hi
         then Some (if c = 10 ^ k then (10 ^ (k - 1), n0 + 1) else (nat c, n0))
         else None)"

text \<open>
  The least \<open>k\<close> from \<open>k\<close> on with such digits, as \<open>(s, n, k)\<close>; 17 digits are enough for
  every double, and the search stops there.
\<close>

function shortest_digits :: "rat \<Rightarrow> nat \<Rightarrow> nat \<times> int \<times> nat" where
  "shortest_digits x k =
     (case digits_at x k of
        Some (s, n) \<Rightarrow> (s, n, k)
      | None \<Rightarrow>
          if 17 \<le> k then (nat \<lfloor>x / 10 powi (ilog 10 x + 1 - int k) + 1 / 2\<rfloor>, ilog 10 x + 1, k)
          else shortest_digits x (Suc k))"
  by pat_completeness auto
termination
  by (relation "measure (\<lambda>(x, k). 17 - k)") auto

declare shortest_digits.simps [simp del]

text \<open>\<^verbatim>\<open>String(x)\<close> for a number \<open>x\<close>.\<close>

definition toString :: "f64 \<Rightarrow> jsstring" where
  "toString x =
     (if \<not> isFinite x then nonfinite_string x
      else if val x = 0 then [ch_zero]
      else
        let sg = (if val x < 0 then [ch_minus] else []);
            (s, n, k) = shortest_digits \<bar>val x\<bar> 1;
            ds = digits_of s
        in if - 5 \<le> n \<and> n \<le> 21 then
             (if int k \<le> n then sg @ ds @ replicate (nat (n - int k)) ch_zero
              else if 0 < n then sg @ take (nat n) ds @ ch_dot # drop (nat n) ds
              else sg @ ch_zero # ch_dot # replicate (nat (- n)) ch_zero @ ds)
           else sg @ point_after_first ds @ exp_suffix (n - 1))"

subsection \<open>Replacing the first match of a pattern\<close>

text \<open>
  \<^verbatim>\<open>str.replace(re, rep)\<close> for a pattern without the global flag: the leftmost match is
  replaced. At a position the longest match is taken; the two patterns of
  \<^verbatim>\<open>formatNumber\<close> have at most one match at a position. \<open>replace_at_end\<close> is for a
  pattern that ends in \<^verbatim>\<open>$\<close>: the match reaches the end of the string.
\<close>

definition longest_match :: "regex \<Rightarrow> jsstring \<Rightarrow> nat option" where
  "longest_match r s = List.find (\<lambda>n. matches r (take n s)) (rev [0..<Suc (length s)])"

fun replace_first :: "regex \<Rightarrow> jsstring \<Rightarrow> jsstring \<Rightarrow> jsstring" where
  "replace_first r rep [] = (if nullable r then rep else [])"
| "replace_first r rep (c # s) =
     (case longest_match r (c # s) of
        Some n \<Rightarrow> rep @ drop n (c # s)
      | None \<Rightarrow> c # replace_first r rep s)"

fun replace_at_end :: "regex \<Rightarrow> jsstring \<Rightarrow> jsstring \<Rightarrow> jsstring" where
  "replace_at_end r rep [] = (if nullable r then rep else [])"
| "replace_at_end r rep (c # s) =
     (if matches r (c # s) then rep else c # replace_at_end r rep s)"

subsection \<open>formatNumber\<close>

text \<open>Line 32: \<^verbatim>\<open>/\.?0+e/\<close>; line 33: \<^verbatim>\<open>/\.0+$/\<close> (without its \<^verbatim>\<open>$\<close>).\<close>

definition zeros_e_re :: regex where
  "zeros_e_re =
     Seq (Opt (Cls (\<lambda>c. c = ch_dot))) (Seq (Plus1 (Cls (\<lambda>c. c = ch_zero))) (Cls (\<lambda>c. c = ch_e)))"

text \<open>The pattern of line 32 without its last letter: \<^verbatim>\<open>/\.?0+/\<close>.\<close>

definition zeros_re :: regex where
  "zeros_re = Seq (Opt (Cls (\<lambda>c. c = ch_dot))) (Plus1 (Cls (\<lambda>c. c = ch_zero)))"

definition point_zeros_re :: regex where
  "point_zeros_re = Seq (Cls (\<lambda>c. c = ch_dot)) (Plus1 (Cls (\<lambda>c. c = ch_zero)))"

text \<open>\<^verbatim>\<open>Math.abs\<close>, and the comparisons \<^verbatim>\<open><\<close> and \<^verbatim>\<open>>=\<close> of numbers (false on NaN).\<close>

fun Math_abs :: "f64 \<Rightarrow> f64" where
  "Math_abs (Finite q) = Finite \<bar>q\<bar>"
| "Math_abs NegZero = Finite 0"
| "Math_abs PosInf = PosInf"
| "Math_abs NegInf = PosInf"
| "Math_abs NaN = NaN"

definition js_lt :: "f64 \<Rightarrow> f64 \<Rightarrow> bool" where
  "js_lt a b =
     (if a = NaN \<or> b = NaN then False
      else if a = PosInf \<or> b = NegInf then False
      else if a = NegInf \<or> b = PosInf then True
      else val a < val b)"

definition js_ge :: "f64 \<Rightarrow> f64 \<Rightarrow> bool" where
  "js_ge a b = (if a = NaN \<or> b = NaN then False else \<not> js_lt a b)"

text \<open>The literals \<^verbatim>\<open>1e12\<close> and \<^verbatim>\<open>1e-6\<close>: the doubles nearest to their values.\<close>

definition lit_1e12 :: f64 where
  "lit_1e12 = round64 (10 ^ 12)"

definition lit_1e_6 :: f64 where
  "lit_1e_6 = round64 (1 / 10 ^ 6)"

text \<open>\<^verbatim>\<open>formatNumber\<close>, lines 29-34, on a number.\<close>

definition formatNumber :: "f64 \<Rightarrow> jsstring" where
  "formatNumber n =
     (if \<not> isFinite n then toString n
      else
        let abs = Math_abs n
        in if \<not> strict_eq abs (Finite 0) \<and> (js_ge abs lit_1e12 \<or> js_lt abs lit_1e_6)
           then replace_first zeros_e_re [ch_e] (toExponential 10 n)
           else replace_at_end point_zeros_re [] (toString (Number (toPrecision 12 n))))"


subsection \<open>Decimal strings\<close>

text \<open>
  The digits \<open>m\<close> with the decimal point after \<open>n\<close> of them, as \<^verbatim>\<open>String(x)\<close> and
  \<^verbatim>\<open>toPrecision\<close> lay a number out in fixed notation; a string of zeros; and a string
  that the tokenizer reads as one number of value \<open>q\<close>.
\<close>

definition fixed_layout :: "jsstring \<Rightarrow> int \<Rightarrow> jsstring" where
  "fixed_layout m n =
     (if int (length m) \<le> n then m @ replicate (nat (n - int (length m))) ch_zero
      else if 0 < n then take (nat n) m @ ch_dot # drop (nat n) m
      else ch_zero # ch_dot # replicate (nat (- n)) ch_zero @ m)"

definition all_zeros :: "jsstring \<Rightarrow> bool" where
  "all_zeros z = list_all (\<lambda>c. c = ch_zero) z"

definition plain_number :: "jsstring \<Rightarrow> rat \<Rightarrow> bool" where
  "plain_number t q =
     (list_all is_num_char t \<and> t \<noteq> [] \<and> is_digit (hd t) \<and> well_formed_run t
      \<and> unsigned_decimal t = Some q)"


section \<open>Facts about the model\<close>

subsection \<open>Rounding\<close>

lemma powi_less_iff [simp]:
  fixes B :: rat
  assumes "1 < B"
  shows "B powi i < B powi j \<longleftrightarrow> i < j"
proof
  assume l: "B powi i < B powi j"
  show "i < j"
  proof (rule ccontr)
    assume "\<not> i < j"
    then have "j \<le> i" by simp
    then have "B powi j \<le> B powi i" using assms by (intro power_int_increasing) auto
    with l show False by simp
  qed
next
  assume "i < j"
  then show "B powi i < B powi j" using assms by (rule power_int_strict_increasing)
qed

lemma powi_le_iff [simp]:
  fixes B :: rat
  assumes "1 < B"
  shows "B powi i \<le> B powi j \<longleftrightarrow> i \<le> j"
  using powi_less_iff [OF assms, of j i] by (simp only: not_less [symmetric])

lemma ilog_bounds:
  assumes b: "1 < b" and "0 < a"
  shows "of_nat b powi (ilog b a) \<le> a \<and> a < of_nat b powi (ilog b a + 1)"
proof -
  let ?B = "of_nat b :: rat"
  have B: "0 < ?B" "?B \<noteq> 0" using b by auto
  obtain p q where pq: "quotient_of a = (p, q)" by (cases "quotient_of a")
  have qpos: "0 < q" using pq by (rule quotient_of_denom_pos)
  have a: "a = of_int p / of_int q" using pq by (rule quotient_of_div)
  have ppos: "0 < p" using assms qpos by (simp add: a zero_less_divide_iff)
  define bp bq where "bp = floorlog b (nat p)" and "bq = floorlog b (nat q)"
  have ip: "b ^ (bp - 1) \<le> nat p" "nat p < b ^ bp"
    using floorlog_bounds [of "nat p" b] ppos b by (auto simp: bp_def)
  have iq: "b ^ (bq - 1) \<le> nat q" "nat q < b ^ bq"
    using floorlog_bounds [of "nat q" b] qpos b by (auto simp: bq_def)
  have bp1: "1 \<le> bp" "1 \<le> bq"
    using ip(2) iq(2) ppos qpos by (auto simp: Suc_le_eq intro!: Nat.gr0I)
  have rp: "of_int p = (of_nat (nat p) :: rat)" and rq: "of_int q = (of_nat (nat q) :: rat)"
    using ppos qpos by auto
  have p_lo: "?B powi (int bp - 1) \<le> of_int p"
  proof -
    have "?B powi (int bp - 1) = ?B ^ (bp - 1)"
      using bp1 by (simp add: power_int_def nat_diff_distrib)
    also have "\<dots> = of_nat (b ^ (bp - 1))" by simp
    also have "\<dots> \<le> of_nat (nat p)" using ip(1) by (simp only: of_nat_le_iff)
    finally show ?thesis by (simp only: rp)
  qed
  have p_hi: "of_int p < ?B powi int bp"
  proof -
    have "of_nat (nat p) < (of_nat (b ^ bp) :: rat)" using ip(2) by (simp only: of_nat_less_iff)
    then show ?thesis by (simp add: rp)
  qed
  have q_lo: "?B powi (int bq - 1) \<le> of_int q"
  proof -
    have "?B powi (int bq - 1) = ?B ^ (bq - 1)"
      using bp1 by (simp add: power_int_def nat_diff_distrib)
    also have "\<dots> = of_nat (b ^ (bq - 1))" by simp
    also have "\<dots> \<le> of_nat (nat q)" using iq(1) by (simp only: of_nat_le_iff)
    finally show ?thesis by (simp only: rq)
  qed
  have q_hi: "of_int q < ?B powi int bq"
  proof -
    have "of_nat (nat q) < (of_nat (b ^ bq) :: rat)" using iq(2) by (simp only: of_nat_less_iff)
    then show ?thesis by (simp add: rq)
  qed
  have rqpos: "0 < (of_int q :: rat)" using qpos by simp
  define d where "d = int bp - int bq"
  have lo: "?B powi (d - 1) \<le> a"
  proof -
    have "?B powi (d - 1) * of_int q \<le> ?B powi (d - 1) * ?B powi int bq"
      using q_hi B by (intro mult_left_mono) (auto simp: less_imp_le)
    also have "\<dots> = ?B powi (d - 1 + int bq)"
      using B by (intro power_int_add [symmetric]) simp
    also have "d - 1 + int bq = int bp - 1" by (simp add: d_def)
    also have "?B powi (int bp - 1) \<le> of_int p" by (rule p_lo)
    finally show ?thesis using rqpos by (simp add: a pos_le_divide_eq)
  qed
  have hi: "a < ?B powi (d + 1)"
  proof -
    have "int bp = (d + 1) + (int bq - 1)" by (simp add: d_def)
    then have "of_int p < ?B powi (d + 1 + (int bq - 1))" using p_hi by simp
    also have "\<dots> = ?B powi (d + 1) * ?B powi (int bq - 1)"
      using B by (intro power_int_add) simp
    also have "\<dots> \<le> ?B powi (d + 1) * of_int q"
      using q_lo B by (intro mult_left_mono) auto
    finally show ?thesis using rqpos by (simp add: a pos_divide_less_eq)
  qed
  show ?thesis
    using lo hi by (auto simp: ilog_def pq bp_def [symmetric] bq_def [symmetric] d_def [symmetric] Let_def not_le)
qed

lemma ilog_eqI:
  assumes b: "1 < b" and lo: "of_nat b powi e \<le> a" and hi: "a < of_nat b powi (e + 1)"
  shows "ilog b a = e"
proof -
  let ?B = "of_nat b :: rat"
  have B: "1 < ?B" using b by simp
  have "0 < ?B powi e" using B by (intro zero_less_power_int) simp
  then have "0 < a" using lo by linarith
  from ilog_bounds [OF b this]
  have i: "?B powi (ilog b a) \<le> a" "a < ?B powi (ilog b a + 1)" by auto
  have "?B powi e < ?B powi (ilog b a + 1)" using lo i(2) by linarith
  moreover have "?B powi (ilog b a) < ?B powi (e + 1)" using hi i(1) by linarith
  ultimately show ?thesis using B by simp
qed

lemma round_half_even_of_int [simp]: "round_half_even (of_int n) = n"
  by (simp add: round_half_even_def)

lemma round_half_even_near: "\<bar>of_int (round_half_even x) - x\<bar> \<le> 1 / 2"
  unfolding round_half_even_def Let_def
  by (auto simp: abs_if not_less) linarith+

lemma round64_exact:
  assumes q: "q \<noteq> 0" and rep: "\<bar>q\<bar> = of_int m * 2 powi k" and m: "m < 2 ^ 53"
    and k: "- 1074 \<le> k" and big: "\<bar>q\<bar> < 2 powi 1024"
  shows "round64 q = Finite q"
proof -
  define a where "a = \<bar>q\<bar>"
  have apos: "0 < a" using q by (simp add: a_def)
  define e where "e = ilog 2 a"
  have e: "2 powi e \<le> a" "a < 2 powi (e + 1)"
    using ilog_bounds [of 2 a] apos by (auto simp: e_def)
  define k' where "k' = ulp_exp a"
  have k'_def2: "k' = (if e < - 1022 then - 1074 else e - 52)"
    by (simp add: k'_def ulp_exp_def e_def)
  have "of_int m < (2 powi 53 :: rat)"
    using m by simp
  then have "a < 2 powi 53 * 2 powi k"
    unfolding a_def rep by (simp add: mult_strict_right_mono)
  then have "(2::rat) powi e < 2 powi (53 + k)"
    using e(1) by (simp add: power_int_add)
  then have "e - 52 \<le> k" by simp
  then have kk: "k' \<le> k" using k by (simp add: k'_def2)
  have "a / 2 powi k' = of_int m * 2 powi (k - k')"
    by (simp add: a_def rep power_int_diff)
  also have "(2::rat) powi (k - k') = of_int (2 ^ nat (k - k'))"
    using kk by (simp add: power_int_def)
  finally have int: "a / 2 powi k' = of_int (m * 2 ^ nat (k - k'))"
    by simp
  have "of_int (round_half_even (a / 2 powi k')) * 2 powi k' = a / 2 powi k' * 2 powi k'"
    unfolding int round_half_even_of_int ..
  then have "of_int (round_half_even (a / 2 powi k')) * 2 powi k' = a"
    by simp
  then show ?thesis
    using q big apos unfolding round64_def a_def [symmetric] k'_def [symmetric] Let_def
    by (auto simp: a_def not_le)
qed

lemma round64_of_int:
  assumes "\<bar>n\<bar> < 2 ^ 53"
  shows "round64 (of_int n) = Finite (of_int n)"
proof (cases "n = 0")
  case True
  then show ?thesis by (simp add: round64_def)
next
  case False
  have "\<bar>of_int n :: rat\<bar> = of_int \<bar>n\<bar> * 2 powi 0" by simp
  moreover have "\<bar>of_int n :: rat\<bar> < 2 powi 1024"
  proof -
    have "\<bar>of_int n :: rat\<bar> < of_int (2 ^ 53)" using assms by (simp only: of_int_abs [symmetric] of_int_less_iff)
    also have "\<dots> < 2 powi 1024" by simp
    finally show ?thesis .
  qed
  ultimately show ?thesis
    using False assms by (intro round64_exact [where m = "\<bar>n\<bar>" and k = 0]) auto
qed

lemma round64_numeral [simp]:
  "(numeral w :: int) < 2 ^ 53 \<Longrightarrow> round64 (numeral w) = Finite (numeral w)"
  "(numeral w :: int) < 2 ^ 53 \<Longrightarrow> round64 (- numeral w) = Finite (- numeral w)"
  "round64 0 = Finite 0" "round64 1 = Finite 1"
  using round64_of_int [of "numeral w"] round64_of_int [of "- numeral w"] round64_of_int [of 0] round64_of_int [of 1]
  by simp_all

subsection \<open>Evaluating the pipeline on a literal\<close>

lemmas char_defs = ch_dot_def ch_lparen_def ch_rparen_def ch_plus_def ch_minus_def ch_star_def
  ch_slash_def ch_zero_def ch_e_def ch_E_def

lemmas number_defs = Number_def unsigned_decimal_def exponent_part_def digits_value_def
  digit_val_def

lemmas arith_defs = js_add_def js_sub_def js_mul_def js_div_def js_pos_def strict_eq_def
  signed_zero_def signed_inf_def

lemmas calc_defs = js_def char_defs is_num_char_def is_digit_def is_space_def number_re_def
  Opt_def Plus1_def number_defs tokenize_def strip_ws_def isOperator_def toRpn_def
  unary_position_def evalRpn_def evaluate_def arith_defs

subsection \<open>The evaluator's loop on a concatenation\<close>

lemma evalRpn_loop_append:
  "evalRpn_loop (pre @ post) st =
     (case evalRpn_loop pre st of Inl e \<Rightarrow> Inl e | Inr st' \<Rightarrow> evalRpn_loop post st')"
proof (induction pre st rule: evalRpn_loop.induct)
  case (3 v ts st)
  then show ?case
    by (auto split: list.splits sum.splits)
qed simp_all

subsection \<open>The converter and the parentheses\<close>

lemma open_parens_simps [simp]:
  "open_parens [] = 0"
  "open_parens (LParen # ops) = Suc (open_parens ops)"
  "open_parens (Op v # ops) = open_parens ops"
  "open_parens (Num x # ops) = open_parens ops"
  "open_parens (RParen # ops) = open_parens ops"
  by (simp_all add: open_parens_def)

lemma open_parens_0: "open_parens ops = 0 \<longleftrightarrow> LParen \<notin> set ops"
  by (induction ops) (auto simp: open_parens_def)

lemma pushOp_open_parens: "open_parens (snd (pushOp a (out, ops))) = open_parens ops"
  by (induction a "(out, ops)" arbitrary: out ops rule: pushOp.induct) auto

lemma closeParen_none:
  "LParen \<notin> set ops \<Longrightarrow> closeParen (out, ops) = Inl MismatchedParentheses"
  by (induction "(out, ops)" arbitrary: out ops rule: closeParen.induct) auto

lemma closeParen_some:
  "LParen \<in> set ops \<Longrightarrow>
     \<exists>out' ops'. closeParen (out, ops) = Inr (out', ops') \<and> open_parens ops = Suc (open_parens ops')"
  by (induction "(out, ops)" arbitrary: out ops rule: closeParen.induct) auto

lemma drain_open:
  "LParen \<in> set ops \<Longrightarrow> drain out ops = Inl MismatchedParentheses"
  by (induction out ops rule: drain.induct) auto

lemma drain_closed:
  "LParen \<notin> set ops \<Longrightarrow> drain out ops = Inr (out @ ops)"
  by (induction out ops rule: drain.induct) auto

lemma toRpn_loop_succeeds_iff:
  "(\<exists>rpn. toRpn_loop prev ts (out, ops) = Inr rpn) \<longleftrightarrow> parens_balanced (open_parens ops) ts"
proof (induction prev ts "(out, ops)" arbitrary: out ops rule: toRpn_loop.induct)
  case (1 prev out ops)
  show ?case
  proof (cases "LParen \<in> set ops")
    case True
    then show ?thesis by (simp add: drain_open open_parens_0)
  next
    case False
    then show ?thesis by (simp add: drain_closed open_parens_0)
  qed
next
  case (4 prev ts out ops)
  show ?case
  proof (cases "LParen \<in> set ops")
    case True
    from closeParen_some [OF this, of out] obtain out' ops'
      where c: "closeParen (out, ops) = Inr (out', ops')" "open_parens ops = Suc (open_parens ops')"
      by blast
    show ?thesis using 4 [OF c(1)] c by simp
  next
    case False
    then show ?thesis by (simp add: closeParen_none open_parens_0 [symmetric])
  qed
next
  case (5 prev v ts out ops)
  obtain o1 p1 where p1: "pushOp (if v = Plus then UPlus else UMinus) (out, ops) = (o1, p1)"
    by (cases "pushOp (if v = Plus then UPlus else UMinus) (out, ops)")
  obtain o2 p2 where p2: "pushOp v (out, ops) = (o2, p2)"
    by (cases "pushOp v (out, ops)")
  have "open_parens p1 = open_parens ops" "open_parens p2 = open_parens ops"
    using pushOp_open_parens [of "if v = Plus then UPlus else UMinus" out ops]
      pushOp_open_parens [of v out ops] by (simp_all add: p1 p2)
  then show ?case
    using 5(1) [OF _ p1] 5(2) [OF _ p2] by (auto simp: p1 p2)
qed simp_all

lemma closeParen_error: "closeParen st = Inl e \<Longrightarrow> e = MismatchedParentheses"
  by (induction st rule: closeParen.induct) auto

lemma drain_error: "drain out ops = Inl e \<Longrightarrow> e = MismatchedParentheses"
  by (induction out ops rule: drain.induct) auto

lemma toRpn_loop_error:
  "toRpn_loop prev ts st = Inl e \<Longrightarrow> e = MismatchedParentheses"
  by (induction prev ts st rule: toRpn_loop.induct)
     (auto split: sum.splits if_splits dest: closeParen_error drain_error)

lemma toRpn_fails_iff:
  "toRpn tokens = Inl MismatchedParentheses \<longleftrightarrow> \<not> parens_balanced 0 tokens"
proof -
  have "toRpn tokens = Inl MismatchedParentheses \<longleftrightarrow> \<not> (\<exists>rpn. toRpn tokens = Inr rpn)"
    using toRpn_loop_error [of None tokens "([], [])"]
    by (cases "toRpn tokens") (auto simp: toRpn_def)
  then show ?thesis
    using toRpn_loop_succeeds_iff [of None tokens "[]" "[]"] by (simp add: toRpn_def)
qed

subsection \<open>Unary operators\<close>

lemma toRpn_loop_disamb:
  "toRpn_loop prev ts st = shunting_yard_loop (disamb prev ts) st"
proof (induction prev ts st rule: toRpn_loop.induct)
  case (4 prev ts out ops)
  then show ?case by (simp split: sum.splits)
next
  case (5 prev v ts out ops)
  then show ?case by (cases v) (simp_all add: prod_eq_iff)
qed simp_all

lemma disambiguate_disamb_gen:
  "map (disambiguate_at (pre @ ts)) [length pre..<length pre + length ts]
     = disamb (if pre = [] then None else Some (last pre)) ts"
proof (induction ts arbitrary: pre)
  case Nil
  then show ?case by simp
next
  case (Cons t ts)
  have u: "is_unary_at (pre @ t # ts) (length pre)
             = unary_position (if pre = [] then None else Some (last pre))"
    by (cases pre rule: rev_cases) (simp_all add: is_unary_at_def unary_position_def nth_append)
  have hd: "disambiguate_at (pre @ t # ts) (length pre)
              = (if t = Op Plus \<and> unary_position (if pre = [] then None else Some (last pre)) then Op UPlus
                 else if t = Op Minus \<and> unary_position (if pre = [] then None else Some (last pre)) then Op UMinus
                 else t)"
    unfolding disambiguate_at_def u nth_append_length ..
  have tl: "map (disambiguate_at (pre @ t # ts)) [Suc (length pre)..<Suc (length pre + length ts)]
              = disamb (Some t) ts"
    using Cons [of "pre @ [t]"] by simp
  show ?case
    by (simp add: upt_conv_Cons hd tl del: upt_Suc)
qed

lemma disambiguate_disamb: "disambiguate ts = disamb None ts"
  using disambiguate_disamb_gen [of "[]" ts] by (simp add: disambiguate_def)

lemma toRpn_shunting_yard: "toRpn ts = shunting_yard (disambiguate ts)"
  by (simp add: toRpn_def shunting_yard_def toRpn_loop_disamb disambiguate_disamb)

lemma pushOp_unary:
  "v = UPlus \<or> v = UMinus \<Longrightarrow> pushOp v (out, ops) = (out, Op v # ops)"
  by (cases ops; cases "hd ops"; cases "case hd ops of Op b \<Rightarrow> b | _ \<Rightarrow> Plus") auto

subsection \<open>Finite values\<close>

lemma round_half_even_ge_floor: "\<lfloor>x\<rfloor> \<le> round_half_even x"
  by (simp add: round_half_even_def Let_def)

lemma round_half_even_le_ceiling: "round_half_even x \<le> \<lfloor>x\<rfloor> + 1"
  by (simp add: round_half_even_def Let_def)

lemma two_powi_less_iff: "(2::rat) powi i < 2 powi j \<longleftrightarrow> i < j"
  by (rule powi_less_iff) simp

lemma two_powi_le_iff: "(2::rat) powi i \<le> 2 powi j \<longleftrightarrow> i \<le> j"
  by (rule powi_le_iff) simp

lemma round64_overflow:
  assumes "2 powi 1024 \<le> \<bar>q\<bar>"
  shows "round64 q = (if q < 0 then NegInf else PosInf)"
proof -
  define a where "a = \<bar>q\<bar>"
  have a1024: "2 powi 1024 \<le> a" using assms by (simp add: a_def)
  have "(0::rat) < 2 powi 1024" by simp
  then have apos: "0 < a" using a1024 by linarith
  then have q: "q \<noteq> 0" by (auto simp: a_def)
  define e where "e = ilog 2 a"
  have e: "2 powi e \<le> a" "a < 2 powi (e + 1)"
    using ilog_bounds [of 2 a] apos by (auto simp: e_def)
  have "(2::rat) powi 1024 < 2 powi (e + 1)" using a1024 e(2) by linarith
  then have "1024 < e + 1" by (simp only: two_powi_less_iff)
  then have e1024: "1024 \<le> e" by simp
  define k where "k = ulp_exp a"
  have k: "k = e - 52" using e1024 by (simp add: k_def ulp_exp_def e_def [symmetric])
  have split: "(2::rat) powi e = 2 powi 52 * 2 powi k"
  proof -
    have "(2::rat) powi (52 + k) = 2 powi 52 * 2 powi k" by (rule power_int_add) simp
    moreover have "52 + k = e" by (simp add: k)
    ultimately show ?thesis by (simp only:)
  qed
  have kpos: "(0::rat) < 2 powi k" by simp
  have "(2::rat) powi 52 = 2 powi e / 2 powi k"
    unfolding split using kpos by (simp only: nonzero_mult_div_cancel_right less_imp_neq [OF kpos, symmetric] not_False_eq_True)
  also have "\<dots> \<le> a / 2 powi k"
    using e(1) by (simp add: divide_right_mono)
  finally have "(2::rat) powi 52 \<le> a / 2 powi k" .
  then have "2 ^ 52 \<le> \<lfloor>a / 2 powi k\<rfloor>"
    by (simp add: le_floor_iff)
  then have n: "2 ^ 52 \<le> round_half_even (a / 2 powi k)"
    using round_half_even_ge_floor [of "a / 2 powi k"] by linarith
  have "(2::rat) powi 1024 \<le> 2 powi e" using e1024 by (simp only: two_powi_le_iff)
  also have "\<dots> = 2 powi 52 * 2 powi k" by (rule split)
  also have "\<dots> \<le> of_int (round_half_even (a / 2 powi k)) * 2 powi k"
  proof (rule mult_right_mono)
    have "(of_int (2 ^ 52) :: rat) \<le> of_int (round_half_even (a / 2 powi k))"
      using n by (simp only: of_int_le_iff)
    then show "(2::rat) powi 52 \<le> of_int (round_half_even (a / 2 powi k))" by simp
  qed simp
  finally show ?thesis
    using q unfolding round64_def a_def [symmetric] k_def [symmetric] Let_def by simp
qed

lemma isFinite_js_neg [simp]: "isFinite (js_neg a) = isFinite a"
  by (cases a) simp_all

lemma tokenize_loop_finite:
  "tokenize_loop s acc = Inr ts \<Longrightarrow> list_all token_finite acc \<Longrightarrow> list_all token_finite ts"
  by (induction s acc rule: tokenize_loop.induct)
     (auto simp: Let_def split: if_splits option.splits)

lemma pushOp_finite:
  "pushOp a (out, ops) = (out', ops') \<Longrightarrow> list_all token_finite out \<Longrightarrow> list_all token_finite ops
     \<Longrightarrow> list_all token_finite out' \<and> list_all token_finite ops'"
  by (induction a "(out, ops)" arbitrary: out ops rule: pushOp.induct) (auto split: if_splits)

lemma closeParen_finite:
  "closeParen (out, ops) = Inr (out', ops') \<Longrightarrow> list_all token_finite out \<Longrightarrow> list_all token_finite ops
     \<Longrightarrow> list_all token_finite out' \<and> list_all token_finite ops'"
  by (induction "(out, ops)" arbitrary: out ops rule: closeParen.induct) auto

lemma drain_finite:
  "drain out ops = Inr rpn \<Longrightarrow> list_all token_finite out \<Longrightarrow> list_all token_finite ops
     \<Longrightarrow> list_all token_finite rpn"
  by (induction out ops rule: drain.induct) auto

lemma toRpn_loop_finite:
  "toRpn_loop prev ts (out, ops) = Inr rpn \<Longrightarrow> list_all token_finite ts
     \<Longrightarrow> list_all token_finite out \<Longrightarrow> list_all token_finite ops \<Longrightarrow> list_all token_finite rpn"
proof (induction prev ts "(out, ops)" arbitrary: out ops rule: toRpn_loop.induct)
  case (1 prev out ops)
  then show ?case by (auto dest: drain_finite)
next
  case (4 prev ts out ops)
  then show ?case
    by (auto split: sum.splits dest: closeParen_finite)
next
  case (5 prev v ts out ops)
  obtain o1 p1 where p1: "pushOp (if v = Plus then UPlus else UMinus) (out, ops) = (o1, p1)"
    by (cases "pushOp (if v = Plus then UPlus else UMinus) (out, ops)")
  obtain o2 p2 where p2: "pushOp v (out, ops) = (o2, p2)"
    by (cases "pushOp v (out, ops)")
  from pushOp_finite [OF p1] pushOp_finite [OF p2] 5(4-6)
  have f: "list_all token_finite o1" "list_all token_finite p1"
    "list_all token_finite o2" "list_all token_finite p2" by auto
  show ?case
  proof (cases "unary_position prev \<and> (v = Plus \<or> v = Minus)")
    case True
    then have "toRpn_loop (Some (Op v)) ts (o1, p1) = Inr rpn"
      using 5(3) by (simp add: p1)
    then show ?thesis using 5(1) [OF True p1] 5(4) f by simp
  next
    case False
    have "toRpn_loop (Some (Op v)) ts (o2, p2) = Inr rpn"
      using 5(3) unfolding toRpn_loop.simps if_not_P [OF False] p2 .
    then show ?thesis using 5(2) [OF False p2] 5(4) f by simp
  qed
qed auto

lemma evalRpn_loop_finite:
  "evalRpn_loop rpn st = Inr st' \<Longrightarrow> list_all token_finite rpn \<Longrightarrow> list_all isFinite st
     \<Longrightarrow> list_all isFinite st'"
  by (induction rpn st rule: evalRpn_loop.induct)
     (auto simp: js_pos_def split: if_splits list.splits sum.splits)

subsection \<open>Patterns\<close>

lemma nullable_lang: "nullable r \<longleftrightarrow> [] \<in> lang r"
  by (induction r) (auto simp: conc_def intro: star.intros)

lemma star_cons:
  "c # w \<in> star A \<longleftrightarrow> (\<exists>u v. w = u @ v \<and> c # u \<in> A \<and> v \<in> star A)"
proof
  assume "c # w \<in> star A"
  then show "\<exists>u v. w = u @ v \<and> c # u \<in> A \<and> v \<in> star A"
  proof (induction "c # w" rule: star.induct)
    case (star_step u v)
    show ?case
    proof (cases u)
      case Nil
      then show ?thesis using star_step by simp
    next
      case (Cons d u')
      then show ?thesis using star_step by auto
    qed
  qed
next
  assume "\<exists>u v. w = u @ v \<and> c # u \<in> A \<and> v \<in> star A"
  then obtain u v where "w = u @ v" "c # u \<in> A" "v \<in> star A" by blast
  then show "c # w \<in> star A"
    using star_step [of "c # u" A v] by simp
qed

lemma conc_cons:
  "c # w \<in> conc A B \<longleftrightarrow>
     (\<exists>u v. w = u @ v \<and> c # u \<in> A \<and> v \<in> B) \<or> ([] \<in> A \<and> c # w \<in> B)"
  unfolding conc_def
  by (auto simp: Cons_eq_append_conv)

lemma deriv_lang: "w \<in> lang (deriv c r) \<longleftrightarrow> c # w \<in> lang r"
proof (induction r arbitrary: w)
  case (Seq r s)
  then show ?case
    by (auto simp: conc_cons nullable_lang) (auto simp: conc_def)
next
  case (Star r)
  then show ?case
    by (auto simp: star_cons) (auto simp: conc_def)
qed auto

lemma matches_lang: "matches r w \<longleftrightarrow> w \<in> lang r"
  by (induction w arbitrary: r) (simp_all add: nullable_lang deriv_lang)

lemma conc_iff: "w \<in> conc A B \<longleftrightarrow> (\<exists>u v. w = u @ v \<and> u \<in> A \<and> v \<in> B)"
  by (auto simp: conc_def)

lemma star_cls: "w \<in> star {[c] | c. P c} \<longleftrightarrow> list_all P w"
proof
  assume "w \<in> star {[c] | c. P c}"
  then show "list_all P w"
    by (induction rule: star.induct) auto
next
  assume "list_all P w"
  then show "w \<in> star {[c] | c. P c}"
  proof (induction w)
    case Nil
    show ?case by (rule star_empty)
  next
    case (Cons c w)
    then show ?case using star_step [of "[c]" "{[c] | c. P c}" w] by simp
  qed
qed

lemma lang_number_re:
  "w \<in> lang number_re \<longleftrightarrow>
     (\<exists>a d b. w = a @ d @ b \<and> list_all is_digit a \<and> (d = [] \<or> d = [ch_dot])
        \<and> list_all is_digit b \<and> b \<noteq> [])"
proof -
  have plus: "b \<in> conc {[c] | c. is_digit c} (star {[c] | c. is_digit c})
                \<longleftrightarrow> list_all is_digit b \<and> b \<noteq> []" for b
  proof (cases b)
    case Nil
    then show ?thesis by (simp add: conc_iff)
  next
    case (Cons c b')
    have "c # b' \<in> conc {[c] | c. is_digit c} (star {[c] | c. is_digit c})
            \<longleftrightarrow> is_digit c \<and> b' \<in> star {[c] | c. is_digit c}"
    proof
      assume "c # b' \<in> conc {[c] | c. is_digit c} (star {[c] | c. is_digit c})"
      then show "is_digit c \<and> b' \<in> star {[c] | c. is_digit c}"
        by (auto simp: conc_def)
    next
      assume r: "is_digit c \<and> b' \<in> star {[c] | c. is_digit c}"
      have "[c] @ b' \<in> conc {[c] | c. is_digit c} (star {[c] | c. is_digit c})"
        unfolding conc_def using r by blast
      then show "c # b' \<in> conc {[c] | c. is_digit c} (star {[c] | c. is_digit c})"
        by simp
    qed
    then show ?thesis by (simp add: Cons star_cls)
  qed
  have opt: "d \<in> {[c] | c. c = ch_dot} \<union> {[]} \<longleftrightarrow> d = [] \<or> d = [ch_dot]" for d
    by auto
  have "w \<in> lang number_re \<longleftrightarrow>
          (\<exists>a r. w = a @ r \<and> list_all is_digit a
             \<and> (\<exists>d b. r = d @ b \<and> (d = [] \<or> d = [ch_dot]) \<and> list_all is_digit b \<and> b \<noteq> []))"
    by (simp only: number_re_def Opt_def Plus1_def lang.simps conc_iff opt star_cls
        plus [unfolded conc_iff star_cls])
  also have "\<dots> \<longleftrightarrow>
          (\<exists>a d b. w = a @ d @ b \<and> list_all is_digit a \<and> (d = [] \<or> d = [ch_dot])
             \<and> list_all is_digit b \<and> b \<noteq> [])"
    by blast
  finally show ?thesis .
qed

lemma not_digit_dot [simp]: "\<not> is_digit ch_dot"
  by (simp add: is_digit_def ch_dot_def)

lemma count_dot_digits: "list_all is_digit a \<Longrightarrow> count_list a ch_dot = 0"
  by (induction a) auto

lemma matches_number_re:
  assumes "list_all is_num_char raw"
  shows "matches number_re raw \<longleftrightarrow> well_formed_run raw"
proof
  assume "matches number_re raw"
  then obtain a d b where w: "raw = a @ d @ b" "list_all is_digit a" "d = [] \<or> d = [ch_dot]"
    "list_all is_digit b" "b \<noteq> []"
    unfolding matches_lang lang_number_re by blast
  have "is_digit (last b)" using w(4,5) by (simp add: list_all_iff)
  then show "well_formed_run raw"
    using w by (auto simp: well_formed_run_def count_dot_digits)
next
  assume wf: "well_formed_run raw"
  show "matches number_re raw"
  proof (cases "ch_dot \<in> set raw")
    case False
    then have "list_all is_digit raw"
      using assms by (auto simp: list_all_iff is_num_char_def)
    then show ?thesis
      using wf unfolding matches_lang lang_number_re well_formed_run_def
      by (intro exI [of _ "[]"] exI [of _ raw]) simp
  next
    case True
    then obtain a b where ab: "raw = a @ ch_dot # b" "ch_dot \<notin> set a"
      by (auto dest: split_list_first)
    have "count_list b ch_dot = 0"
      using wf by (simp add: well_formed_run_def ab)
    then have nb: "ch_dot \<notin> set b" by (simp add: count_list_0_iff)
    have da: "list_all is_digit a" and db: "list_all is_digit b"
      using assms ab(2) nb by (auto simp: ab(1) list_all_iff is_num_char_def)
    have "b \<noteq> []" using wf by (auto simp: well_formed_run_def ab(1))
    then show ?thesis
      using da db unfolding matches_lang lang_number_re ab(1)
      by (intro exI [of _ a] exI [of _ "[ch_dot]"] exI [of _ b]) simp
  qed
qed


lemma digits_value_snoc: "digits_value (ds @ [c]) = 10 * digits_value ds + digit_val c"
  by (simp add: digits_value_def)

lemma digits_value_Nil [simp]: "digits_value [] = 0"
  by (simp add: digits_value_def)

lemma digits_value_append:
  "digits_value (xs @ ys) = digits_value xs * 10 ^ length ys + digits_value ys"
proof (induction ys rule: rev_induct)
  case Nil
  show ?case by simp
next
  case (snoc c ys)
  have "digits_value (xs @ ys @ [c]) = 10 * digits_value (xs @ ys) + digit_val c"
    using digits_value_snoc [of "xs @ ys" c] by simp
  then show ?case
    by (simp add: snoc digits_value_snoc algebra_simps)
qed

lemma digits_value_zeros: "digits_value (replicate n 48) = 0"
  by (induction n) (simp_all add: digits_value_append [of "[48]", simplified] digits_value_def digit_val_def)

lemma takeWhile_zeros:
  "\<not> is_num_char c \<Longrightarrow> takeWhile is_num_char (replicate n 48 @ c # s) = replicate n 48"
  by (induction n) (simp_all add: is_num_char_def is_digit_def)

lemma huge_literal:
  "matches number_re (50 # replicate 308 48)"
  "Number (50 # replicate 308 48) = PosInf"
proof -
  let ?raw = "50 # replicate 308 48 :: jsstring"
  have d: "list_all is_digit ?raw"
    by (simp add: is_digit_def list_all_iff)
  then have "list_all is_num_char ?raw"
    by (simp add: list_all_iff is_num_char_def)
  moreover have "well_formed_run ?raw"
    using d by (simp add: well_formed_run_def count_dot_digits list_all_iff)
  ultimately show "matches number_re ?raw"
    by (simp only: matches_number_re)
  have tw: "takeWhile is_digit ?raw = ?raw" "dropWhile is_digit ?raw = []"
    using d by (simp_all add: list_all_iff)
  have dv: "digits_value ?raw = 2 * 10 ^ 308"
    using digits_value_append [of "[50]" "replicate 308 48"]
    by (simp add: digits_value_zeros) (simp add: digits_value_def digit_val_def)
  have "strip_sign ?raw = (False, ?raw)"
    by (simp add: ch_minus_def ch_plus_def)
  moreover have "?raw \<noteq> js ''Infinity''"
    by (simp add: js_def)
  moreover have "unsigned_decimal ?raw = Some (2 * 10 ^ 308)"
    unfolding unsigned_decimal_def tw Let_def by (simp add: exponent_part_def dv)
  moreover have "round64 (2 * 10 ^ 308) = PosInf"
    using round64_overflow [of "2 * 10 ^ 308"] by simp
  ultimately show "Number ?raw = PosInf"
    unfolding Number_def by (simp)
qed

subsection \<open>Binary operators\<close>

lemma not_unary_after_num: "\<not> unary_position (Some (Num y))"
  by (simp add: unary_position_def)

lemma unary_after_op: "unary_position (Some (Op v))"
  by (simp add: unary_position_def)

lemmas position = not_unary_after_num unary_after_op

lemma pushOp_mult_pending:
  "is_multiplicative v \<Longrightarrow> pending S \<Longrightarrow> pushOp v (out, S) = (out, Op v # S)"
  by (auto simp: position is_multiplicative_def is_additive_def pending_def)

lemma pushOp_mult_mult:
  "is_multiplicative v \<Longrightarrow> is_multiplicative m \<Longrightarrow> pending S \<Longrightarrow>
   pushOp v (out, Op m # S) = (out @ [Op m], Op v # S)"
  by (auto simp: position is_multiplicative_def is_additive_def pending_def)

lemma pushOp_add_pending:
  "is_additive w \<Longrightarrow> pending S \<Longrightarrow> pushOp w (out, S) = (out @ S, [Op w])"
  by (auto simp: position is_multiplicative_def is_additive_def pending_def)

lemma pushOp_add_mult:
  "is_additive w \<Longrightarrow> is_multiplicative m \<Longrightarrow> pending S \<Longrightarrow>
   pushOp w (out, Op m # S) = (out @ Op m # S, [Op w])"
  by (auto simp: position is_multiplicative_def is_additive_def pending_def)

lemma drain_pending: "pending S \<Longrightarrow> drain out S = Inr (out @ S)"
  by (auto simp: position pending_def)

lemma pending_single: "is_additive w \<Longrightarrow> pending [Op w]"
  by (simp add: position pending_def)

lemma factors_end:
  assumes "list_all (\<lambda>f. is_multiplicative (fst f)) fs" "is_multiplicative m" "pending S"
  shows "toRpn_loop (Some (Num y)) (factors_infix fs) (out, Op m # S)
           = Inr (out @ Op m # factors_postfix fs @ S)"
  using assms
proof (induction fs arbitrary: y out m)
  case Nil
  then show ?case by (simp add: position drain_pending)
next
  case (Cons f fs)
  obtain v x where f: "f = (v, x)" by (cases f)
  have v: "is_multiplicative v" and fs: "list_all (\<lambda>f. is_multiplicative (fst f)) fs"
    using Cons.prems by (simp_all add: f)
  have nv: "\<not> (v = Plus \<or> v = Minus)"
    using v by (auto simp: position is_multiplicative_def)
  show ?case
    using Cons.IH [OF fs v \<open>pending S\<close>, of x "out @ [Op m, Num x]"]
    by (simp add: position f nv pushOp_mult_mult [OF v \<open>is_multiplicative m\<close> \<open>pending S\<close>] del: pushOp.simps)
qed

lemma factors_then:
  assumes "list_all (\<lambda>f. is_multiplicative (fst f)) fs" "is_multiplicative m" "pending S" "is_additive w"
  shows "toRpn_loop (Some (Num y)) (factors_infix fs @ Op w # rest) (out, Op m # S)
           = toRpn_loop (Some (Op w)) rest (out @ Op m # factors_postfix fs @ S, [Op w])"
  using assms
proof (induction fs arbitrary: y out m)
  case Nil
  then show ?case
    by (simp add: position pushOp_add_mult del: pushOp.simps)
next
  case (Cons f fs)
  obtain v x where f: "f = (v, x)" by (cases f)
  have v: "is_multiplicative v" and fs: "list_all (\<lambda>f. is_multiplicative (fst f)) fs"
    using Cons.prems by (simp_all add: f)
  have nv: "\<not> (v = Plus \<or> v = Minus)"
    using v by (auto simp: position is_multiplicative_def)
  show ?case
    using Cons.IH [OF fs v \<open>pending S\<close> \<open>is_additive w\<close>, of x "out @ [Op m, Num x]"]
    by (simp add: position f nv pushOp_mult_mult [OF v \<open>is_multiplicative m\<close> \<open>pending S\<close>] del: pushOp.simps)
qed

lemma product_end:
  assumes "product_ok p" "pending S"
  shows "toRpn_loop prev (product_infix p) (out, S) = Inr (out @ product_postfix p @ S)"
proof -
  obtain x fs where p: "p = (x, fs)" by (cases p)
  show ?thesis
  proof (cases fs)
    case Nil
    then show ?thesis using assms by (simp add: position p drain_pending)
  next
    case (Cons f fs')
    obtain v z where f: "f = (v, z)" by (cases f)
    have v: "is_multiplicative v" and fs: "list_all (\<lambda>f. is_multiplicative (fst f)) fs'"
      using assms(1) by (simp_all add: product_ok_def p Cons f)
    have nv: "\<not> (v = Plus \<or> v = Minus)"
      using v by (auto simp: position is_multiplicative_def)
    show ?thesis
      using factors_end [OF fs v \<open>pending S\<close>, of z "out @ [Num x, Num z]"]
      by (simp add: position p Cons f nv pushOp_mult_pending [OF v \<open>pending S\<close>] del: pushOp.simps)
  qed
qed

lemma product_then:
  assumes "product_ok p" "pending S" "is_additive w"
  shows "toRpn_loop prev (product_infix p @ Op w # rest) (out, S)
           = toRpn_loop (Some (Op w)) rest (out @ product_postfix p @ S, [Op w])"
proof -
  obtain x fs where p: "p = (x, fs)" by (cases p)
  have nu: "\<not> (unary_position (Some (Num x)) \<and> (w = Plus \<or> w = Minus))"
    by (simp add: position)
  show ?thesis
  proof (cases fs)
    case Nil
    then show ?thesis
      using assms by (simp add: position p pushOp_add_pending del: pushOp.simps)
  next
    case (Cons f fs')
    obtain v z where f: "f = (v, z)" by (cases f)
    have v: "is_multiplicative v" and fs: "list_all (\<lambda>f. is_multiplicative (fst f)) fs'"
      using assms(1) by (simp_all add: product_ok_def p Cons f)
    have nv: "\<not> (v = Plus \<or> v = Minus)"
      using v by (auto simp: position is_multiplicative_def)
    show ?thesis
      using factors_then [OF fs v \<open>pending S\<close> \<open>is_additive w\<close>, of z rest "out @ [Num x, Num z]"]
      by (simp add: position p Cons f nv pushOp_mult_pending [OF v \<open>pending S\<close>] del: pushOp.simps)
  qed
qed

lemma terms_loop:
  assumes "product_ok p" "list_all (\<lambda>t. is_additive (fst t) \<and> product_ok (snd t)) ts" "pending S"
  shows "toRpn_loop prev (product_infix p @ terms_infix ts) (out, S)
           = Inr (out @ product_postfix p @ S @ terms_postfix ts)"
  using assms
proof (induction ts arbitrary: p out S prev)
  case Nil
  then show ?case by (simp add: position product_end)
next
  case (Cons t ts)
  obtain w q where t: "t = (w, q)" by (cases t)
  have w: "is_additive w" and q: "product_ok q"
    and ts: "list_all (\<lambda>t. is_additive (fst t) \<and> product_ok (snd t)) ts"
    using Cons.prems(2) by (simp_all add: t)
  have "toRpn_loop prev (product_infix p @ terms_infix (t # ts)) (out, S)
          = toRpn_loop (Some (Op w)) (product_infix q @ terms_infix ts)
              (out @ product_postfix p @ S, [Op w])"
    using product_then [OF \<open>product_ok p\<close> \<open>pending S\<close> w] by (simp add: position t)
  also have "\<dots> = Inr ((out @ product_postfix p @ S) @ product_postfix q @ [Op w] @ terms_postfix ts)"
    by (rule Cons.IH [OF q ts pending_single [OF w]])
  finally show ?case by (simp add: position t)
qed

lemma toRpn_sum: "sum_ok s \<Longrightarrow> toRpn (sum_infix s) = Inr (sum_postfix s)"
  using terms_loop [of "fst s" "snd s" "[]" None "[]"]
  by (cases s) (simp add: toRpn_def sum_ok_def pending_def)


lemma evalRpn_loop_binary:
  "is_additive v \<or> is_multiplicative v \<Longrightarrow>
   evalRpn_loop (Op v # rest) (b # a # st)
     = (case apply_binary v a b of Inl e \<Rightarrow> Inl e | Inr r \<Rightarrow> evalRpn_loop rest (r # st))"
  by (auto simp: position is_additive_def is_multiplicative_def apply_binary_def split: sum.splits)

lemma evalRpn_loop_factors:
  assumes "list_all (\<lambda>f. is_multiplicative (fst f)) fs"
  shows "evalRpn_loop (factors_postfix fs @ rest) (a # st)
           = (case left_fold a fs of Inl e \<Rightarrow> Inl e | Inr r \<Rightarrow> evalRpn_loop rest (r # st))"
  using assms
proof (induction fs arbitrary: a)
  case Nil
  then show ?case by simp
next
  case (Cons f fs)
  obtain v x where f: "f = (v, x)" by (cases f)
  have v: "is_multiplicative v" and fs: "list_all (\<lambda>f. is_multiplicative (fst f)) fs"
    using Cons.prems by (simp_all add: f)
  show ?case
    using Cons.IH [OF fs] v
    by (simp add: position f evalRpn_loop_binary split: sum.splits del: evalRpn_loop.simps(3))
qed

lemma evalRpn_loop_product:
  assumes "product_ok p"
  shows "evalRpn_loop (product_postfix p @ rest) st
           = (case product_value p of Inl e \<Rightarrow> Inl e | Inr r \<Rightarrow> evalRpn_loop rest (r # st))"
  using assms evalRpn_loop_factors [of "snd p" rest "fst p" st]
  by (cases p) (simp add: product_ok_def)

lemma evalRpn_loop_terms:
  assumes "list_all (\<lambda>t. is_additive (fst t) \<and> product_ok (snd t)) ts"
  shows "evalRpn_loop (terms_postfix ts @ rest) (a # st)
           = (case terms_value a ts of Inl e \<Rightarrow> Inl e | Inr r \<Rightarrow> evalRpn_loop rest (r # st))"
  using assms
proof (induction ts arbitrary: a)
  case Nil
  then show ?case by simp
next
  case (Cons t ts)
  obtain w q where t: "t = (w, q)" by (cases t)
  have w: "is_additive w" and q: "product_ok q"
    and ts: "list_all (\<lambda>t. is_additive (fst t) \<and> product_ok (snd t)) ts"
    using Cons.prems by (simp_all add: t)
  show ?case
    using Cons.IH [OF ts] w
    by (simp add: position t evalRpn_loop_product [OF q] evalRpn_loop_binary split: sum.splits
        del: evalRpn_loop.simps(3))
qed

lemma evalRpn_sum: "sum_ok s \<Longrightarrow> evalRpn (sum_postfix s) = sum_value s"
  using evalRpn_loop_product [of "fst s" "terms_postfix (snd s)" "[]"]
    evalRpn_loop_terms [of "snd s" "[]" _ "[]"]
  by (cases s) (simp add: sum_ok_def evalRpn_def split: sum.splits)

lemma sum_infix_nonempty: "sum_infix s \<noteq> []"
  by (cases s; cases "fst s") simp

lemma evaluate_sum:
  "tokenize input = Inr (sum_infix s) \<Longrightarrow> sum_ok s \<Longrightarrow> evaluate input = sum_value s"
  by (simp add: position evaluate_def sum_infix_nonempty toRpn_sum evalRpn_sum)

subsection \<open>Runs of signs\<close>

lemma toRpn_loop_signs:
  assumes "list_all is_sign ss" "unary_position prev"
  shows "toRpn_loop prev (map Op ss @ Num a # rest) (out, ops)
           = toRpn_loop (Some (Num a)) rest (out @ [Num a], signs_postfix ss @ ops)"
  using assms
proof (induction ss arbitrary: prev ops)
  case Nil
  then show ?case by simp
next
  case (Cons s ss)
  have s: "s = Plus \<or> s = Minus"
    using Cons.prems(1) by (simp add: position is_sign_def)
  have ss: "list_all is_sign ss"
    using Cons.prems(1) by simp
  have push: "pushOp (unary_of s) (out, ops) = (out, Op (unary_of s) # ops)"
    by (rule pushOp_unary) (simp add: unary_of_def)
  show ?case
    using Cons.IH [OF ss, of "Some (Op s)" "Op (unary_of s) # ops"] s Cons.prems(2) push
    by (auto simp: position unary_of_def simp del: pushOp.simps)
qed

lemma signs_postfix_unary: "list_all (\<lambda>t. \<exists>u. is_unary u \<and> t = Op u) (signs_postfix ss)"
  by (induction ss) (auto simp: is_unary_def unary_of_def)

lemma pushOp_pops_unary:
  assumes "is_additive b \<or> is_multiplicative b" "list_all (\<lambda>t. \<exists>u. is_unary u \<and> t = Op u) us"
  shows "pushOp b (out, us @ ops) = pushOp b (out @ us, ops)"
  using assms
proof (induction us arbitrary: out)
  case Nil
  then show ?case by simp
next
  case (Cons t us)
  obtain u where u: "is_unary u" "t = Op u" using Cons.prems(2) by auto
  have "pushOp b (out, (t # us) @ ops) = pushOp b (out @ [t], us @ ops)"
    using Cons.prems(1) u by (auto simp: position is_additive_def is_multiplicative_def is_unary_def)
  then show ?case
    using Cons.IH [of "out @ [t]"] Cons.prems by simp
qed

lemma drain_unary:
  "list_all (\<lambda>t. \<exists>u. is_unary u \<and> t = Op u) us \<Longrightarrow> drain out (us @ ops) = drain (out @ us) ops"
  by (induction us arbitrary: out) auto

lemma toRpn_signed:
  assumes "list_all is_sign ss"
  shows "toRpn (map Op ss @ [Num a]) = Inr (Num a # signs_postfix ss)"
  using toRpn_loop_signs [OF assms, of None a "[]" "[]" "[]"]
    drain_unary [OF signs_postfix_unary, of "[Num a]" ss "[]"]
  by (simp add: position toRpn_def unary_position_def)

lemma toRpn_signed_left:
  assumes "list_all is_sign ss" "is_additive b \<or> is_multiplicative b"
  shows "toRpn (map Op ss @ [Num a, Op b, Num c]) = Inr (Num a # signs_postfix ss @ [Num c, Op b])"
proof -
  have nb: "\<not> (unary_position (Some (Num a)) \<and> (b = Plus \<or> b = Minus))"
    by (simp add: position)
  have p: "pushOp b ([Num a], signs_postfix ss @ []) = ([Num a] @ signs_postfix ss, [Op b])"
    using pushOp_pops_unary [OF assms(2) signs_postfix_unary, of "[Num a]" ss "[]"] by simp
  show ?thesis
    using toRpn_loop_signs [OF assms(1), of None a "[Op b, Num c]" "[]" "[]"] p
    by (simp add: position toRpn_def unary_position_def del: pushOp.simps)
qed

lemma toRpn_signed_right:
  assumes "list_all is_sign ss" "is_additive b \<or> is_multiplicative b"
  shows "toRpn ([Num a, Op b] @ map Op ss @ [Num c]) = Inr ([Num a, Num c] @ signs_postfix ss @ [Op b])"
proof -
  have nb: "\<not> (unary_position (Some (Num a)) \<and> (b = Plus \<or> b = Minus))"
    by (simp add: position)
  have d: "drain [Num a, Num c] (signs_postfix ss @ [Op b]) = Inr ([Num a, Num c] @ signs_postfix ss @ [Op b])"
    using drain_unary [OF signs_postfix_unary, of "[Num a, Num c]" ss "[Op b]"] by simp
  show ?thesis
    using toRpn_loop_signs [OF assms(1), of "Some (Op b)" c "[]" "[Num a]" "[Op b]"] d
    by (simp add: position toRpn_def)
qed

subsection \<open>Floors of numerals\<close>

lemma floor_numeral_div [simp]: "\<lfloor>numeral a / numeral b :: rat\<rfloor> = numeral a div numeral b"
  using floor_divide_of_int_eq [of "numeral a" "numeral b", where ?'a = rat] by simp

subsection \<open>Digits\<close>

lemma digit_char_props:
  assumes "d < 10"
  shows "is_digit (digit_char d)" "digit_val (digit_char d) = d" "is_num_char (digit_char d)"
    "digit_char d \<noteq> ch_dot" "digit_char d \<noteq> ch_e" "digit_char d \<noteq> ch_minus"
proof -
  have u: "unat (digit_char d) = 48 + d"
    using assms by (simp add: digit_char_def unat_of_nat take_bit_nat_eq_self del: of_nat_add)
  have le: "(48 :: 16 word) \<le> digit_char d" "digit_char d \<le> (57 :: 16 word)"
    using u assms by (simp_all add: word_le_nat_alt)
  show "is_digit (digit_char d)" using le by (simp add: is_digit_def)
  then show "is_num_char (digit_char d)" by (simp add: is_num_char_def)
  show "digit_val (digit_char d) = d" by (simp add: digit_val_def u)
  show "digit_char d \<noteq> ch_dot" "digit_char d \<noteq> ch_e" "digit_char d \<noteq> ch_minus"
    using u assms by (auto simp: char_defs)
qed

lemma digits_of_digits: "list_all is_digit (digits_of n)"
  by (induction n rule: digits_of.induct) (subst digits_of.simps, simp add: digit_char_props)

lemma digits_of_value: "digits_value (digits_of n) = n"
proof (induction n rule: digits_of.induct)
  case (1 n)
  show ?case
  proof (cases "n < 10")
    case True
    then show ?thesis
      by (subst digits_of.simps) (simp add: digits_value_def digit_char_props)
  next
    case False
    then show ?thesis
      using 1 by (subst digits_of.simps) (simp add: digits_value_snoc digit_char_props)
  qed
qed

lemma digits_of_length:
  "0 < p \<Longrightarrow> 10 ^ (p - 1) \<le> n \<Longrightarrow> n < 10 ^ p \<Longrightarrow> length (digits_of n) = p"
proof (induction n arbitrary: p rule: digits_of.induct)
  case (1 n)
  show ?case
  proof (cases "n < 10")
    case True
    have "p = 1"
    proof (rule ccontr)
      assume "p \<noteq> 1"
      then have "2 \<le> p" using 1(2) by simp
      then have "(10::nat) ^ 1 \<le> 10 ^ (p - 1)" by (intro power_increasing) auto
      then show False using 1(3) True by simp
    qed
    then show ?thesis using True by (subst digits_of.simps) simp
  next
    case False
    have p2: "2 \<le> p"
    proof (rule ccontr)
      assume "\<not> 2 \<le> p"
      then have "p = 1" using 1(2) by simp
      then show False using 1(4) False by simp
    qed
    then obtain p' where p': "p = Suc p'" "0 < p'" by (cases p) auto
    have "10 ^ (p' - 1) \<le> n div 10"
    proof -
      have "10 ^ (p' - 1) * 10 \<le> n" using 1(3) p' by (cases p') auto
      then show ?thesis by (simp add: less_eq_div_iff_mult_less_eq)
    qed
    moreover have "n div 10 < 10 ^ p'"
      using 1(4) p' by (simp add: less_mult_imp_div_less mult.commute)
    ultimately have "length (digits_of (n div 10)) = p'"
      using 1(1) [OF False p'(2)] by simp
    then show ?thesis using False p' by (subst digits_of.simps) simp
  qed
qed

lemma digits_of_nonempty: "digits_of n \<noteq> []"
  by (subst digits_of.simps) simp

lemma digits_value_zeros': "digits_value (replicate n ch_zero) = 0"
  using digits_value_zeros by (simp add: ch_zero_def)

lemma digits_value_lead_zeros:
  "digits_value (replicate n ch_zero @ ds) = digits_value ds"
  by (simp add: digits_value_append digits_value_zeros')

lemma digits_value_trail_zeros:
  "digits_value (ds @ replicate n ch_zero) = digits_value ds * 10 ^ n"
  by (simp add: digits_value_append digits_value_zeros')

lemma is_digit_zero [simp]: "is_digit ch_zero"
  by (simp add: is_digit_def ch_zero_def)


subsection \<open>Reading decimal strings\<close>

lemma takeWhile_digits:
  "list_all is_digit ds \<Longrightarrow> \<not> is_digit c \<Longrightarrow> takeWhile is_digit (ds @ c # rest) = ds"
  by (induction ds) auto

lemma dropWhile_digits:
  "list_all is_digit ds \<Longrightarrow> \<not> is_digit c \<Longrightarrow> dropWhile is_digit (ds @ c # rest) = c # rest"
  by (induction ds) auto

lemma takeWhile_all_digits: "list_all is_digit ds \<Longrightarrow> takeWhile is_digit ds = ds"
  by (induction ds) auto

lemma dropWhile_all_digits: "list_all is_digit ds \<Longrightarrow> dropWhile is_digit ds = []"
  by (induction ds) auto

lemma not_digit_chars [simp]:
  "\<not> is_digit ch_e" "\<not> is_digit ch_minus" "\<not> is_digit ch_plus" "ch_e \<noteq> ch_dot"
  "ch_minus \<noteq> ch_dot" "ch_plus \<noteq> ch_dot" "ch_minus \<noteq> ch_plus" "ch_plus \<noteq> ch_minus"
  by (simp_all add: is_digit_def char_defs)

lemma exponent_part_suffix: "exponent_part (exp_suffix e) = Some e"
proof -
  have d: "list_all is_digit (digits_of (nat \<bar>e\<bar>))" "digits_of (nat \<bar>e\<bar>) \<noteq> []"
    by (simp_all add: digits_of_digits digits_of_nonempty)
  show ?thesis
    using d by (cases "0 \<le> e") (simp_all add: exponent_part_def exp_suffix_def digits_of_value)
qed

lemma exponent_part_Nil: "exponent_part [] = Some 0"
  by (simp add: exponent_part_def)

lemma unsigned_decimal_digits:
  assumes "list_all is_digit ds" "ds \<noteq> []"
  shows "unsigned_decimal ds = Some (of_nat (digits_value ds))"
  using assms
  by (simp add: unsigned_decimal_def takeWhile_all_digits dropWhile_all_digits exponent_part_Nil)

lemma unsigned_decimal_digits_exp:
  assumes "list_all is_digit ds" "ds \<noteq> []"
  shows "unsigned_decimal (ds @ exp_suffix e) = Some (of_nat (digits_value ds) * 10 powi e)"
proof -
  define t where "t = tl (exp_suffix e)"
  have es: "exp_suffix e = ch_e # t"
    by (simp add: t_def exp_suffix_def)
  show ?thesis
    using assms exponent_part_suffix [of e] unfolding unsigned_decimal_def es
    by (simp add: takeWhile_digits dropWhile_digits)
qed

lemma unsigned_decimal_point:
  assumes "list_all is_digit ip" "list_all is_digit fp" "ip \<noteq> [] \<or> fp \<noteq> []"
  shows "unsigned_decimal (ip @ ch_dot # fp)
           = Some (of_nat (digits_value ip) + of_nat (digits_value fp) / 10 ^ length fp)"
  using assms
  by (auto simp: unsigned_decimal_def takeWhile_digits dropWhile_digits takeWhile_all_digits
      dropWhile_all_digits exponent_part_Nil)

lemma unsigned_decimal_point_exp:
  assumes "list_all is_digit ip" "list_all is_digit fp" "ip \<noteq> [] \<or> fp \<noteq> []"
  shows "unsigned_decimal (ip @ ch_dot # fp @ exp_suffix e)
           = Some ((of_nat (digits_value ip) + of_nat (digits_value fp) / 10 ^ length fp) * 10 powi e)"
proof -
  define t where "t = tl (exp_suffix e)"
  have es: "exp_suffix e = ch_e # t"
    by (simp add: t_def exp_suffix_def)
  show ?thesis
    using assms exponent_part_suffix [of e] unfolding unsigned_decimal_def es
    by (auto simp: takeWhile_digits dropWhile_digits)
qed

lemma powi_10_neg: "0 \<le> k \<Longrightarrow> (10::rat) powi (- k) = 1 / 10 ^ nat k"
  by (simp add: power_int_def field_simps)

lemma powi_10_nonneg: "0 \<le> k \<Longrightarrow> (10::rat) powi k = 10 ^ nat k"
  by (simp add: power_int_def)

lemma unsigned_decimal_fixed:
  assumes m: "list_all is_digit m" "m \<noteq> []"
  shows "unsigned_decimal (fixed_layout m n)
           = Some (of_nat (digits_value m) * 10 powi (n - int (length m)))"
proof -
  consider (a) "int (length m) \<le> n" | (b) "0 < n" "n < int (length m)" | (c) "n \<le> 0"
    by linarith
  then show ?thesis
  proof cases
    case a
    have "list_all is_digit (m @ replicate (nat (n - int (length m))) ch_zero)"
      using m by (auto simp: list_all_iff)
    then show ?thesis
      using a m by (simp add: fixed_layout_def unsigned_decimal_digits digits_value_trail_zeros
          powi_10_nonneg)
  next
    case b
    let ?ip = "take (nat n) m" and ?fp = "drop (nat n) m"
    have d: "list_all is_digit ?ip" "list_all is_digit ?fp"
      using m by (auto simp: list_all_iff dest: in_set_takeD in_set_dropD)
    have ne: "?ip \<noteq> []" using b m by simp
    have len: "length ?fp = nat (int (length m) - n)" using b by simp
    have v: "digits_value m = digits_value ?ip * 10 ^ length ?fp + digits_value ?fp"
      using digits_value_append [of ?ip ?fp] by simp
    have "(of_nat (digits_value ?ip) + of_nat (digits_value ?fp) / 10 ^ length ?fp :: rat)
            = of_nat (digits_value m) / 10 ^ length ?fp"
      unfolding v by (simp add: field_simps)
    also have "\<dots> = of_nat (digits_value m) * 10 powi (n - int (length m))"
      unfolding len using b powi_10_neg [of "int (length m) - n"] by simp
    finally show ?thesis
      using b d ne by (simp add: fixed_layout_def unsigned_decimal_point)
  next
    case c
    let ?fp = "replicate (nat (- n)) ch_zero @ m"
    have d: "list_all is_digit [ch_zero]" "list_all is_digit ?fp"
      using m by (auto simp: list_all_iff)
    have len: "length ?fp = nat (int (length m) - n)" using c by simp
    have "(of_nat (digits_value [ch_zero]) + of_nat (digits_value ?fp) / 10 ^ length ?fp :: rat)
            = of_nat (digits_value m) / 10 ^ length ?fp"
      using digits_value_zeros' [of 1] by (simp add: digits_value_lead_zeros)
    also have "\<dots> = of_nat (digits_value m) * 10 powi (n - int (length m))"
      unfolding len using c powi_10_neg [of "int (length m) - n"] by simp
    finally have v: "(of_nat (digits_value [ch_zero]) + of_nat (digits_value ?fp) / 10 ^ length ?fp :: rat)
            = of_nat (digits_value m) * 10 powi (n - int (length m))" .
    have "\<not> int (length m) \<le> n" using c m by (cases m) auto
    then have "fixed_layout m n = [ch_zero] @ ch_dot # ?fp"
      using c by (simp add: fixed_layout_def)
    then show ?thesis
      using d unsigned_decimal_point [of "[ch_zero]" ?fp] by (simp only: v) simp
  qed
qed


lemma Number_decimal:
  assumes "unsigned_decimal s = Some mv" "s \<noteq> []" "is_digit (hd s)"
  shows "Number s = round64 mv" "Number (ch_minus # s) = js_neg (round64 mv)"
proof -
  obtain c s' where s: "s = c # s'" using assms(2) by (cases s) auto
  have c: "c \<noteq> ch_minus" "c \<noteq> ch_plus" "c \<noteq> 73"
    using assms(3) by (auto simp: s is_digit_def char_defs)
  have inf: "s \<noteq> js ''Infinity''"
    using c by (simp add: s js_def)
  have ss: "strip_sign s = (False, s)"
    using c by (simp add: s)
  show "Number s = round64 mv"
    using assms(1,2) by (simp add: Number_def ss inf)
  show "Number (ch_minus # s) = js_neg (round64 mv)"
    using assms(1) by (simp add: Number_def inf)
qed

subsection \<open>Evaluating a number literal\<close>

lemma num_char_not_space: "is_num_char c \<Longrightarrow> \<not> is_space c"
  by (auto simp: is_num_char_def is_digit_def is_space_def ch_dot_def word_le_nat_alt)

lemma special_not_space [simp]: "\<not> is_space ch_minus" "\<not> is_space ch_e"
  by (simp_all add: is_space_def char_defs)

lemma strip_ws_run: "list_all is_num_char t \<Longrightarrow> strip_ws t = t"
  by (induction t) (simp_all add: strip_ws_def num_char_not_space)

lemma strip_ws_append: "strip_ws (a @ b) = strip_ws a @ strip_ws b"
  by (simp add: strip_ws_def)

lemma takeWhile_run: "list_all is_num_char t \<Longrightarrow> takeWhile is_num_char t = t"
  by (induction t) auto

lemma dropWhile_run: "list_all is_num_char t \<Longrightarrow> dropWhile is_num_char t = []"
  by (induction t) auto

lemma takeWhile_run_stop:
  "list_all is_num_char t \<Longrightarrow> \<not> is_num_char c \<Longrightarrow> takeWhile is_num_char (t @ c # rest) = t"
  by (induction t) auto

lemma dropWhile_run_stop:
  "list_all is_num_char t \<Longrightarrow> \<not> is_num_char c \<Longrightarrow> dropWhile is_num_char (t @ c # rest) = c # rest"
  by (induction t) auto

lemma special_not_num [simp]: "\<not> is_num_char ch_minus" "\<not> is_num_char ch_e"
  by (simp_all add: is_num_char_def is_digit_def char_defs)

lemma tokenize_loop_run:
  assumes "list_all is_num_char t" "t \<noteq> []" "matches number_re t" "isFinite (Number t)"
  shows "tokenize_loop t acc = Inr (acc @ [Num (Number t)])"
proof -
  obtain c r where t: "t = c # r" using assms(2) by (cases t) auto
  have c: "is_num_char c" and r: "list_all is_num_char r" using assms(1) by (simp_all add: t)
  show ?thesis
    using assms(3,4) c unfolding t
    by (simp add: takeWhile_run [OF r] dropWhile_run [OF r])
qed

lemma tokenize_loop_run_e:
  assumes "list_all is_num_char t" "t \<noteq> []" "matches number_re t" "isFinite (Number t)"
  shows "tokenize_loop (t @ ch_e # rest) acc = Inl (UnexpectedCharacter ch_e)"
proof -
  obtain c r where t: "t = c # r" using assms(2) by (cases t) auto
  have c: "is_num_char c" and r: "list_all is_num_char r" using assms(1) by (simp_all add: t)
  have e: "tokenize_loop (ch_e # rest) acc' = Inl (UnexpectedCharacter ch_e)" for acc'
    by (simp add: isOperator_def char_defs is_num_char_def is_digit_def)
  have "tokenize_loop ((c # r) @ ch_e # rest) acc
          = tokenize_loop (ch_e # rest) (acc @ [Num (Number (c # r))])"
    using assms(3,4) c unfolding t append_Cons
    by (subst tokenize_loop.simps)
       (simp add: takeWhile_run_stop [OF r] dropWhile_run_stop [OF r] del: tokenize_loop.simps)
  then show ?thesis
    unfolding t by (simp only: e)
qed

lemma evaluate_run:
  assumes "list_all is_num_char t" "t \<noteq> []" "matches number_re t" "isFinite (Number t)"
  shows "evaluate t = Inr (Number t)" "evaluate (ch_minus # t) = Inr (js_neg (Number t))"
proof -
  have tk: "tokenize t = Inr [Num (Number t)]"
    using tokenize_loop_run [OF assms, of "[]"] by (simp add: tokenize_def strip_ws_run [OF assms(1)])
  show "evaluate t = Inr (Number t)"
    by (simp add: evaluate_def tk toRpn_def evalRpn_def)
  have "strip_ws (ch_minus # t) = ch_minus # t"
    using strip_ws_run [OF assms(1)] by (simp add: strip_ws_def)
  then have tk': "tokenize (ch_minus # t) = Inr [Op Minus, Num (Number t)]"
    using tokenize_loop_run [OF assms, of "[Op Minus]"]
    by (simp add: tokenize_def isOperator_def char_defs is_num_char_def is_digit_def)
  show "evaluate (ch_minus # t) = Inr (js_neg (Number t))"
    by (simp add: evaluate_def tk' toRpn_def evalRpn_def unary_position_def)
qed

lemma evaluate_run_e:
  assumes "list_all is_num_char t" "t \<noteq> []" "matches number_re t" "isFinite (Number t)"
  shows "evaluate (t @ ch_e # rest) = Inl (UnexpectedCharacter ch_e)"
    "evaluate (ch_minus # t @ ch_e # rest) = Inl (UnexpectedCharacter ch_e)"
proof -
  have s: "strip_ws (t @ ch_e # rest) = t @ ch_e # strip_ws rest"
    using strip_ws_run [OF assms(1)] by (simp add: strip_ws_append) (simp add: strip_ws_def)
  show "evaluate (t @ ch_e # rest) = Inl (UnexpectedCharacter ch_e)"
    using tokenize_loop_run_e [OF assms] by (simp add: evaluate_def tokenize_def s)
  have "strip_ws (ch_minus # t @ ch_e # rest) = ch_minus # t @ ch_e # strip_ws rest"
    using s by (simp add: strip_ws_def)
  then show "evaluate (ch_minus # t @ ch_e # rest) = Inl (UnexpectedCharacter ch_e)"
    using tokenize_loop_run_e [OF assms, of "strip_ws rest" "[Op Minus]"]
    by (simp add: evaluate_def tokenize_def isOperator_def char_defs is_num_char_def is_digit_def)
qed

subsection \<open>The rounding error of a normal number\<close>

lemma round64_normal:
  assumes lo: "2 powi (- 1022) \<le> \<bar>q\<bar>" and hi: "\<bar>q\<bar> < 2 powi 1023"
  shows "\<exists>r. round64 q = Finite r \<and> \<bar>r - q\<bar> \<le> \<bar>q\<bar> * 2 powi (- 53)
           \<and> (0 < q \<longrightarrow> 0 < r) \<and> (q < 0 \<longrightarrow> r < 0)"
proof -
  define a where "a = \<bar>q\<bar>"
  have "(0::rat) < 2 powi (- 1022)" by (rule zero_less_power_int) simp
  then have apos: "0 < a" using lo by (simp add: a_def)
  then have q: "q \<noteq> 0" by (auto simp: a_def)
  define e where "e = ilog 2 a"
  have e: "2 powi e \<le> a" "a < 2 powi (e + 1)"
    using ilog_bounds [of 2 a] apos by (auto simp: e_def)
  have "(2::rat) powi (- 1022) < 2 powi (e + 1)" using lo e(2) by (simp add: a_def)
  then have "- 1022 < e + 1" by (simp only: two_powi_less_iff)
  then have e_lo: "- 1022 \<le> e" by simp
  have "(2::rat) powi e < 2 powi 1023" using hi e(1) by (simp add: a_def)
  then have e_hi: "e < 1023" by (simp only: two_powi_less_iff)
  define k where "k = ulp_exp a"
  have k: "k = e - 52" using e_lo by (simp add: k_def ulp_exp_def e_def [symmetric])
  define y where "y = a / 2 powi k"
  define n where "n = round_half_even y"
  have kpos: "(0::rat) < 2 powi k" by (rule zero_less_power_int) simp
  have split: "(2::rat) powi e = 2 powi 52 * 2 powi k"
  proof -
    have "(2::rat) powi (52 + k) = 2 powi 52 * 2 powi k" by (rule power_int_add) simp
    moreover have "52 + k = e" by (simp add: k)
    ultimately show ?thesis by (simp only:)
  qed
  have y_lo: "2 powi 52 \<le> y"
  proof -
    have "2 powi 52 * 2 powi k \<le> a" using e(1) by (simp only: split)
    then show ?thesis using kpos by (simp add: y_def pos_le_divide_eq)
  qed
  have "(1::rat) \<le> 2 powi 52" by simp
  then have y1: "1 \<le> y" using y_lo by linarith
  have near: "\<bar>of_int n - y\<bar> \<le> 1 / 2"
    unfolding n_def by (rule round_half_even_near)
  have npos: "0 < n"
  proof -
    have "y - of_int n \<le> 1 / 2" using near by (simp only: abs_le_iff) linarith
    then have "(0::rat) < of_int n" using y1 by linarith
    then show ?thesis by simp
  qed
  define r :: rat where "r = of_int n * 2 powi k"
  have rpos: "0 < r" using npos kpos by (simp add: r_def)
  have ra: "r - a = (of_int n - y) * 2 powi k"
    using kpos by (simp add: r_def y_def algebra_simps)
  have err: "\<bar>r - a\<bar> \<le> 2 powi k / 2"
  proof -
    have "\<bar>r - a\<bar> = \<bar>of_int n - y\<bar> * 2 powi k"
      unfolding ra using kpos by (simp add: abs_mult)
    also have "\<dots> \<le> 1 / 2 * 2 powi k"
      using near kpos by (intro mult_right_mono) auto
    finally show ?thesis by simp
  qed
  have k53: "(2::rat) powi k / 2 = 2 powi e * 2 powi (- 53)"
  proof -
    have "(2::rat) powi (e + (- 53)) = 2 powi e * 2 powi (- 53)" by (rule power_int_add) simp
    moreover have "(2::rat) powi (k + (- 1)) = 2 powi k * 2 powi (- 1)" by (rule power_int_add) simp
    moreover have "e + (- 53) = k + (- 1)" by (simp add: k)
    ultimately show ?thesis by simp
  qed
  have p53: "(0::rat) < 2 powi (- 53)" by (rule zero_less_power_int) simp
  have err2: "\<bar>r - a\<bar> \<le> a * 2 powi (- 53)"
  proof -
    have "\<bar>r - a\<bar> \<le> 2 powi e * 2 powi (- 53)" using err by (simp only: k53)
    also have "\<dots> \<le> a * 2 powi (- 53)" using e(1) p53 by (intro mult_right_mono) auto
    finally show ?thesis .
  qed
  have small: "r < 2 powi 1024"
  proof -
    have "r \<le> a + 2 powi k / 2" using err by (simp only: abs_le_iff) linarith
    also have "\<dots> < 2 powi (e + 1) + 2 powi (e + 1)"
    proof -
      have "(2::rat) powi k / 2 \<le> 2 powi k" using kpos by simp
      also have "\<dots> < 2 powi (e + 1)"
      proof -
        have "k < e + 1" by (simp add: k)
        then show ?thesis by (simp only: two_powi_less_iff)
      qed
      finally show ?thesis using e(2) by linarith
    qed
    also have "\<dots> = 2 powi (e + 2)"
    proof -
      have "(2::rat) powi (e + 1 + 1) = 2 powi (e + 1) * 2 powi 1" by (rule power_int_add) simp
      moreover have "e + 1 + 1 = e + 2" by simp
      ultimately show ?thesis by simp
    qed
    also have "\<dots> \<le> 2 powi 1024"
    proof -
      have "e + 2 \<le> 1024" using e_hi by simp
      then show ?thesis by (simp only: two_powi_le_iff)
    qed
    finally show ?thesis .
  qed
  have R: "round64 q = Finite (if q < 0 then - r else r)"
    using q small rpos
    unfolding round64_def a_def [symmetric] k_def [symmetric] y_def [symmetric] n_def [symmetric]
      r_def [symmetric] Let_def
    by (simp only: if_False not_le [symmetric] less_imp_neq [OF rpos, symmetric])
  show ?thesis
  proof (cases "q < 0")
    case True
    then have "a = - q" by (simp add: a_def)
    then have "\<bar>- r - q\<bar> = \<bar>r - a\<bar>" by (simp add: abs_minus_commute)
    then show ?thesis using R True err2 rpos by (auto simp: a_def)
  next
    case False
    then have "a = q" by (simp add: a_def)
    then show ?thesis using R False err2 rpos q by (auto simp: a_def)
  qed
qed

subsection \<open>Decimal digits of a number\<close>

lemma ten_powi_pos [simp]: "(0::rat) < 10 powi k"
  by (rule zero_less_power_int) simp

lemma ten_powi_add: "(10::rat) powi (i + j) = 10 powi i * 10 powi j"
  by (rule power_int_add) simp

lemma ten_powi_less_iff: "(10::rat) powi i < 10 powi j \<longleftrightarrow> i < j"
  by (rule powi_less_iff) simp

lemma ten_powi_le_iff: "(10::rat) powi i \<le> 10 powi j \<longleftrightarrow> i \<le> j"
  by (rule powi_le_iff) simp

lemma ilog10_bounds:
  assumes "0 < a"
  shows "10 powi (ilog 10 a) \<le> a" "a < 10 powi (ilog 10 a + 1)"
  using ilog_bounds [of 10 a] assms by simp_all

text \<open>The scaled value of \<open>a\<close> in its decade.\<close>

lemma decade_scaled:
  assumes "0 < a" "0 < k"
  shows "10 ^ (k - 1) \<le> a / 10 powi (ilog 10 a + 1 - int k)"
    "a / 10 powi (ilog 10 a + 1 - int k) < 10 ^ k"
proof -
  let ?e = "ilog 10 a" and ?u = "10 powi (ilog 10 a + 1 - int k) :: rat"
  have u: "0 < ?u" by simp
  have "(10::rat) powi ?e = 10 powi (int (k - 1)) * ?u"
    using assms(2) ten_powi_add [of "int (k - 1)" "?e + 1 - int k"] by simp
  then have "10 ^ (k - 1) * ?u \<le> a" using ilog10_bounds(1) [OF assms(1)] by simp
  then show "10 ^ (k - 1) \<le> a / ?u" using u by (simp add: pos_le_divide_eq)
  have "(10::rat) powi (?e + 1) = 10 powi (int k) * ?u"
    using ten_powi_add [of "int k" "?e + 1 - int k"] by simp
  then have "a < 10 ^ k * ?u" using ilog10_bounds(2) [OF assms(1)] by simp
  then show "a / ?u < 10 ^ k" using u by (simp add: pos_divide_less_eq)
qed

lemma sci_digits_props:
  assumes a: "0 < a" and p: "0 < p" and s: "sci_digits p a = (c, e)"
  shows "10 ^ (p - 1) \<le> c" "c < 10 ^ p"
    "\<bar>of_nat c * 10 powi (e - int p + 1) - a\<bar> \<le> 10 powi (ilog 10 a - int p + 1) / 2"
    "ilog 10 a \<le> e" "e \<le> ilog 10 a + 1"
proof -
  define e0 where "e0 = ilog 10 a"
  define u :: rat where "u = 10 powi (e0 - int p + 1)"
  define y where "y = a / u"
  define n where "n = \<lfloor>y + 1 / 2\<rfloor>"
  have u: "0 < u" by (simp add: u_def)
  have ueq: "u = 10 powi (ilog 10 a + 1 - int p)"
    by (simp add: u_def e0_def algebra_simps)
  have y: "10 ^ (p - 1) \<le> y" "y < 10 ^ p"
    using decade_scaled [OF a p] by (simp_all add: y_def ueq)
  have n_lo: "10 ^ (p - 1) \<le> n"
  proof -
    have "(of_int (10 ^ (p - 1)) :: rat) \<le> y + 1 / 2" using y(1) by simp
    then show ?thesis unfolding n_def by (simp only: le_floor_iff)
  qed
  have n_hi: "n \<le> 10 ^ p"
  proof -
    have "y + 1 / 2 < of_int (10 ^ p) + 1" using y(2) by simp
    then have "n < 10 ^ p + 1" unfolding n_def by (simp only: floor_less_iff of_int_add of_int_1)
    then show ?thesis by simp
  qed
  have near: "\<bar>of_int n - y\<bar> \<le> 1 / 2"
  proof -
    have "of_int n \<le> y + 1 / 2" "y + 1 / 2 < of_int n + 1"
      unfolding n_def by linarith+
    then show ?thesis unfolding abs_le_iff by linarith
  qed
  have sd: "sci_digits p a = (if n = 10 ^ p then (10 ^ (p - 1), e0 + 1) else (nat n, e0))"
    by (simp add: sci_digits_def Let_def e0_def n_def y_def u_def)
  have val: "of_nat c * 10 powi (e - int p + 1) = of_int n * u"
  proof (cases "n = 10 ^ p")
    case True
    then have ce: "c = 10 ^ (p - 1)" "e = e0 + 1" using s sd by simp_all
    have "(10::rat) powi (e0 + 1 - int p + 1) = 10 powi 1 * u"
      unfolding u_def using ten_powi_add [of 1 "e0 - int p + 1"] by (simp add: algebra_simps)
    moreover have "(10::rat) ^ (p - 1) * 10 = 10 ^ p"
      using p by (cases p) simp_all
    ultimately show ?thesis using True by (simp add: ce)
  next
    case False
    then have ce: "c = nat n" "e = e0" using s sd by simp_all
    have "(0::int) \<le> 10 ^ (p - 1)" by simp
    then have "0 \<le> n" using n_lo by linarith
    then show ?thesis by (simp add: ce u_def)
  qed
  show "10 ^ (p - 1) \<le> c"
  proof (cases "n = 10 ^ p")
    case True
    then show ?thesis using s sd by simp
  next
    case False
    then have "c = nat n" using s sd by simp
    then show ?thesis using n_lo by (simp add: le_nat_iff)
  qed
  show "c < 10 ^ p"
  proof (cases "n = 10 ^ p")
    case True
    then have "c = 10 ^ (p - 1)" using s sd by simp
    then show ?thesis using p by (cases p) simp_all
  next
    case False
    then have "c = nat n" "n < 10 ^ p" using s sd n_hi by simp_all
    then show ?thesis by (simp add: nat_less_iff) 
  qed
  have "of_int n * u - a = (of_int n - y) * u"
    using u by (simp add: y_def algebra_simps)
  then have "\<bar>of_int n * u - a\<bar> = \<bar>of_int n - y\<bar> * u"
    using u by (simp add: abs_mult)
  also have "\<dots> \<le> 1 / 2 * u"
    using near u by (intro mult_right_mono) auto
  finally show "\<bar>of_nat c * 10 powi (e - int p + 1) - a\<bar> \<le> 10 powi (ilog 10 a - int p + 1) / 2"
    by (simp add: val u_def e0_def)
  show "ilog 10 a \<le> e" "e \<le> ilog 10 a + 1"
    using s sd by (auto simp: e0_def split: if_splits)
qed


subsection \<open>The shortest digits\<close>

lemma int_near_floor_ceiling:
  fixes A :: rat
  assumes "\<bar>A - of_int z\<bar> < 1"
  shows "z = \<lfloor>A\<rfloor> \<or> z = \<lceil>A\<rceil>"
proof (cases "of_int z \<le> A")
  case True
  then have "A < of_int z + 1" using assms by (simp add: abs_less_iff)
  then have "\<lfloor>A\<rfloor> = z" using True by (simp add: floor_unique)
  then show ?thesis by simp
next
  case False
  then have "of_int z - 1 < A" "A \<le> of_int z" using assms by (simp_all add: abs_less_iff)
  then have "\<lceil>A\<rceil> = z" by (intro ceiling_unique) auto
  then show ?thesis by simp
qed

lemma digits_at_exists:
  assumes x: "0 < x" and k: "0 < k" and c: "10 ^ (k - 1) \<le> c" "c < 10 ^ k"
    and rd: "round64 (of_nat c * 10 powi m) = Finite x"
    and close: "\<bar>x - of_nat c * 10 powi m\<bar> < 10 powi (m - 1)"
  shows "digits_at x k \<noteq> None"
proof -
  define n0 where "n0 = ilog 10 x + 1"
  define u :: rat where "u = 10 powi (n0 - int k)"
  define A where "A = x / u"
  define j where "j = m - n0 + int k"
  define z :: rat where "z = of_nat c * 10 powi j"
  define K :: rat where "K = 10 ^ k"
  have u: "0 < u" by (simp add: u_def)
  have A: "K / 10 \<le> A" "A < K"
  proof -
    have "10 ^ (k - 1) \<le> A" "A < 10 ^ k"
      using decade_scaled [OF x k] by (simp_all add: A_def u_def n0_def)
    moreover have "(10::rat) ^ (k - 1) = K / 10" using k by (cases k) (simp_all add: K_def)
    ultimately show "K / 10 \<le> A" "A < K" by (simp_all add: K_def)
  qed
  have K10: "10 \<le> K" using k unfolding K_def by (cases k) (simp_all add: self_le_power)
  have cK: "K / 10 \<le> of_nat c" "of_nat c \<le> K - 1"
  proof -
    have "(of_nat (10 ^ (k - 1)) :: rat) \<le> of_nat c" using c(1) by (simp only: of_nat_le_iff)
    then have "(10::rat) ^ (k - 1) \<le> of_nat c" by (simp only: of_nat_power of_nat_numeral)
    moreover have "(10::rat) ^ (k - 1) = K / 10" using k by (cases k) (simp_all add: K_def)
    ultimately show "K / 10 \<le> of_nat c" by (simp only:)
    have "Suc c \<le> 10 ^ k" using c(2) by simp
    then have "(of_nat (Suc c) :: rat) \<le> of_nat (10 ^ k)" by (simp only: of_nat_le_iff)
    then have "(of_nat c :: rat) + 1 \<le> 10 ^ k" by (simp only: of_nat_Suc of_nat_power of_nat_numeral)
    then show "of_nat c \<le> K - 1" by (simp add: K_def)
  qed
  have zy: "z * u = of_nat c * 10 powi m"
    using ten_powi_add [of j "n0 - int k"] by (simp add: z_def u_def j_def)
  have cl: "\<bar>A - z\<bar> < 10 powi (j - 1)"
  proof -
    have "A - z = (x - of_nat c * 10 powi m) / u"
      using u by (simp add: A_def zy [symmetric] field_simps)
    then have "\<bar>A - z\<bar> = \<bar>x - of_nat c * 10 powi m\<bar> / u"
      using u by simp
    also have "\<dots> < 10 powi (m - 1) / u"
      using close u by (simp add: divide_strict_right_mono)
    also have "\<dots> = 10 powi (j - 1)"
    proof -
      have "(10::rat) powi (m - 1) = 10 powi (j - 1) * u"
        using ten_powi_add [of "j - 1" "n0 - int k"] by (simp add: u_def j_def)
      then show ?thesis using u by simp
    qed
    finally show ?thesis .
  qed
  have j_cases: "j = 0 \<or> j = 1"
  proof (rule ccontr)
    assume "\<not> (j = 0 \<or> j = 1)"
    then consider "2 \<le> j" | "j \<le> - 1" by linarith
    then show False
    proof cases
      case 1
      define w :: rat where "w = 10 powi (j - 1)"
      have w10: "10 \<le> w"
      proof -
        have "1 \<le> j - 1" using 1 by simp
        then have "(10::rat) powi 1 \<le> 10 powi (j - 1)" by (simp only: ten_powi_le_iff)
        then show ?thesis by (simp add: w_def)
      qed
      have "(10::rat) powi j = 10 * w"
        using ten_powi_add [of 1 "j - 1"] by (simp add: w_def)
      then have z: "z = of_nat c * (10 * w)" by (simp add: z_def)
      have "K / 10 * (10 * w) \<le> of_nat c * (10 * w)"
        using cK(1) w10 by (intro mult_right_mono) auto
      then have zK: "K * w \<le> z" by (simp add: z)
      have "10 * (w - 1) \<le> K * (w - 1)"
        using K10 w10 by (intro mult_right_mono) auto
      then have "10 * w - 10 \<le> K * w - K" by (simp add: algebra_simps)
      moreover have "z - A < w" using cl unfolding w_def [symmetric] abs_less_iff by linarith
      ultimately show False using zK A(2) w10 by linarith
    next
      case 2
      define w :: rat where "w = 10 powi j"
      have w: "0 < w" "w \<le> 1 / 10"
      proof -
        show "0 < w" by (simp add: w_def)
        have "(10::rat) powi j \<le> 10 powi (- 1)" using 2 by (simp only: ten_powi_le_iff)
        then show "w \<le> 1 / 10" by (simp add: w_def)
      qed
      have "(10::rat) powi j = 10 * 10 powi (j - 1)"
        using ten_powi_add [of 1 "j - 1"] by simp
      then have w1: "10 powi (j - 1) = w / 10" by (simp add: w_def)
      have "of_nat c * w \<le> (K - 1) * w"
        using cK(2) w(1) by (intro mult_right_mono) auto
      then have zK: "z \<le> K * w - w" by (simp add: z_def w_def [symmetric] algebra_simps)
      have "K * w \<le> K * (1 / 10)"
        using w(2) K10 by (intro mult_left_mono) auto
      moreover have "A - z < w / 10" using cl unfolding w1 abs_less_iff by linarith
      ultimately show False using zK A(1) w(1) by linarith
    qed
  qed
  obtain zi :: int where zi: "z = of_int zi"
  proof -
    have "z = of_int (int c) \<or> z = of_int (int c * 10)"
      using j_cases by (auto simp: z_def)
    then show ?thesis using that by blast
  qed
  have "\<bar>A - of_int zi\<bar> < 1"
  proof -
    have "(10::rat) powi (j - 1) \<le> 1"
      using j_cases by auto
    then show ?thesis using cl by (simp add: zi)
  qed
  then have "zi = \<lfloor>A\<rfloor> \<or> zi = \<lceil>A\<rceil>"
    by (rule int_near_floor_ceiling)
  moreover have "round64 (of_int zi * u) = Finite x"
    using rd by (simp add: zi [symmetric] zy)
  ultimately have "round64 (of_int \<lfloor>A\<rfloor> * u) = Finite x \<or> round64 (of_int \<lceil>A\<rceil> * u) = Finite x"
    by auto
  then show ?thesis
    unfolding digits_at_def Let_def n0_def [symmetric] u_def [symmetric] A_def [symmetric]
    by (simp only: if_True) simp
qed

lemma digits_at_sound:
  assumes x: "0 < x" and k: "0 < k" and d: "digits_at x k = Some (s, n)"
  shows "round64 (of_nat s * 10 powi (n - int k)) = Finite x" "10 ^ (k - 1) \<le> s" "s < 10 ^ k"
proof -
  define n0 where "n0 = ilog 10 x + 1"
  define u :: rat where "u = 10 powi (n0 - int k)"
  define A where "A = x / u"
  define lo where "lo = \<lfloor>A\<rfloor>"
  define hi where "hi = \<lceil>A\<rceil>"
  define ok where "ok = (\<lambda>c. round64 (of_int c * u) = Finite x)"
  define c where "c = (if ok lo \<and> ok hi then
                 (if A - of_int lo < of_int hi - A then lo
                  else if of_int hi - A < A - of_int lo then hi
                  else if even lo then lo else hi)
               else if ok lo then lo else hi)"
  have da: "digits_at x k = (if ok lo \<or> ok hi
         then Some (if c = 10 ^ k then (10 ^ (k - 1), n0 + 1) else (nat c, n0)) else None)"
    unfolding digits_at_def Let_def n0_def [symmetric] u_def [symmetric] A_def [symmetric]
      lo_def [symmetric] hi_def [symmetric] c_def ok_def
    by simp
  have okc: "ok c" and sn: "(s, n) = (if c = 10 ^ k then (10 ^ (k - 1), n0 + 1) else (nat c, n0))"
    using d unfolding da by (auto simp: c_def split: if_splits)
  have A: "10 ^ (k - 1) \<le> A" "A < 10 ^ k"
    using decade_scaled [OF x k] by (simp_all add: A_def u_def n0_def)
  have lo: "10 ^ (k - 1) \<le> lo"
  proof -
    have "(of_int (10 ^ (k - 1)) :: rat) \<le> A" using A(1) by simp
    then show ?thesis unfolding lo_def by (simp only: le_floor_iff)
  qed
  have hi: "hi \<le> 10 ^ k"
  proof -
    have "A \<le> of_int (10 ^ k)" using A(2) by simp
    then show ?thesis unfolding hi_def by (simp only: ceiling_le_iff)
  qed
  have "lo \<le> hi" unfolding lo_def hi_def by (rule floor_le_ceiling)
  moreover have "c = lo \<or> c = hi" by (auto simp: c_def)
  ultimately have cb: "10 ^ (k - 1) \<le> c" "c \<le> 10 ^ k" using lo hi by auto
  have p10: "(10::nat) ^ (k - 1) * 10 = 10 ^ k" using k by (cases k) simp_all
  show "10 ^ (k - 1) \<le> s"
    using sn cb(1) by (auto simp: le_nat_iff split: if_splits)
  show "s < 10 ^ k"
  proof (cases "c = 10 ^ k")
    case True
    then show ?thesis using sn p10 k by simp
  next
    case False
    then have "c < 10 ^ k" using cb(2) by simp
    then show ?thesis using sn False by (simp add: nat_less_iff)
  qed
  have "of_nat s * 10 powi (n - int k) = of_int c * u"
  proof (cases "c = 10 ^ k")
    case True
    then have s: "s = 10 ^ (k - 1)" "n = n0 + 1" using sn by simp_all
    have "(10::rat) powi (n0 + 1 - int k) = 10 * u"
      using ten_powi_add [of 1 "n0 - int k"] by (simp add: u_def algebra_simps)
    moreover have "(10::rat) ^ (k - 1) * 10 = 10 ^ k" using k by (cases k) simp_all
    ultimately show ?thesis using True by (simp add: s)
  next
    case False
    then have s: "s = nat c" "n = n0" using sn by simp_all
    have "(0::int) \<le> 10 ^ (k - 1)" by simp
    then have "0 \<le> c" using cb(1) by linarith
    then show ?thesis by (simp add: s u_def)
  qed
  then show "round64 (of_nat s * 10 powi (n - int k)) = Finite x"
    using okc by (simp add: ok_def)
qed

lemma shortest_digits_sound:
  assumes x: "0 < x" and ex: "digits_at x k1 \<noteq> None" and k17: "k1 \<le> 17"
    and k: "0 < k0" "k0 \<le> k1"
    and sd: "shortest_digits x k0 = (s, n, k)"
  shows "round64 (of_nat s * 10 powi (n - int k)) = Finite x \<and> 10 ^ (k - 1) \<le> s \<and> s < 10 ^ k
           \<and> 0 < k \<and> k \<le> k1"
  using k sd
proof (induction "k1 - k0" arbitrary: k0)
  case 0
  then have "k0 = k1" by simp
  then obtain s' n' where d: "digits_at x k0 = Some (s', n')" using ex by auto
  then have "(s, n, k) = (s', n', k0)"
    using 0(4) by (subst (asm) shortest_digits.simps) simp
  then show ?case
    using digits_at_sound [OF x 0(2) d] 0(2,3) by simp
next
  case (Suc j)
  show ?case
  proof (cases "digits_at x k0")
    case (Some sn)
    obtain s' n' where sn: "sn = (s', n')" by (cases sn)
    have "(s, n, k) = (s', n', k0)"
      using Suc(5) Some by (subst (asm) shortest_digits.simps) (simp add: sn)
    then show ?thesis
      using digits_at_sound [OF x Suc(3) Some [unfolded sn]] Suc(3,4) by simp
  next
    case None
    have lt: "k0 < k1" using Suc(2) by simp
    have ne: "k0 \<noteq> k1" using None ex by auto
    show ?thesis
    proof (cases "17 \<le> k0")
      case True
      then show ?thesis using lt k17 by simp
    next
      case False
      then have "shortest_digits x (Suc k0) = (s, n, k)"
        using Suc(5) None by (subst (asm) shortest_digits.simps) simp
      then show ?thesis
        using Suc(1) [of "Suc k0"] Suc(2) lt by simp
    qed
  qed
qed

subsection \<open>The two patterns of formatNumber\<close>

lemma plus_cls:
  "w \<in> lang (Plus1 (Cls P)) \<longleftrightarrow> w \<noteq> [] \<and> list_all P w"
proof (cases w)
  case Nil
  then show ?thesis by (simp add: Plus1_def conc_iff)
next
  case (Cons c w')
  have "c # w' \<in> conc {[c] | c. P c} (star {[c] | c. P c}) \<longleftrightarrow> P c \<and> w' \<in> star {[c] | c. P c}"
  proof
    assume "c # w' \<in> conc {[c] | c. P c} (star {[c] | c. P c})"
    then show "P c \<and> w' \<in> star {[c] | c. P c}"
      by (auto simp: conc_def)
  next
    assume r: "P c \<and> w' \<in> star {[c] | c. P c}"
    have "[c] @ w' \<in> conc {[c] | c. P c} (star {[c] | c. P c})"
      unfolding conc_def using r by blast
    then show "c # w' \<in> conc {[c] | c. P c} (star {[c] | c. P c})"
      by simp
  qed
  then show ?thesis by (simp add: Cons Plus1_def star_cls)
qed

lemma matches_point_zeros:
  "matches point_zeros_re w \<longleftrightarrow> (\<exists>z. w = ch_dot # z \<and> z \<noteq> [] \<and> all_zeros z)"
proof -
  have "w \<in> lang point_zeros_re \<longleftrightarrow>
          (\<exists>u v. w = u @ v \<and> u \<in> {[c] | c. c = ch_dot} \<and> v \<noteq> [] \<and> all_zeros v)"
    unfolding point_zeros_re_def lang.simps(4) conc_iff plus_cls all_zeros_def by simp
  also have "\<dots> \<longleftrightarrow> (\<exists>z. w = ch_dot # z \<and> z \<noteq> [] \<and> all_zeros z)"
    by auto
  finally show ?thesis by (simp add: matches_lang)
qed

lemma matches_zeros_e:
  "matches zeros_e_re w \<longleftrightarrow>
     (\<exists>z. z \<noteq> [] \<and> all_zeros z \<and> (w = z @ [ch_e] \<or> w = ch_dot # z @ [ch_e]))"
proof -
  have opt: "d \<in> lang (Opt (Cls (\<lambda>c. c = ch_dot))) \<longleftrightarrow> d = [] \<or> d = [ch_dot]" for d
    by (auto simp: Opt_def)
  have "w \<in> lang zeros_e_re \<longleftrightarrow>
          (\<exists>d r. w = d @ r \<and> (d = [] \<or> d = [ch_dot])
             \<and> (\<exists>z e. r = z @ e \<and> (z \<noteq> [] \<and> all_zeros z) \<and> e \<in> {[c] | c. c = ch_e}))"
    unfolding zeros_e_re_def lang.simps(4) conc_iff opt plus_cls all_zeros_def lang.simps(3) ..
  also have "\<dots> \<longleftrightarrow>
          (\<exists>z. z \<noteq> [] \<and> all_zeros z \<and> (w = z @ [ch_e] \<or> w = ch_dot # z @ [ch_e]))"
  proof
    assume "\<exists>d r. w = d @ r \<and> (d = [] \<or> d = [ch_dot])
             \<and> (\<exists>z e. r = z @ e \<and> (z \<noteq> [] \<and> all_zeros z) \<and> e \<in> {[c] | c. c = ch_e})"
    then show "\<exists>z. z \<noteq> [] \<and> all_zeros z \<and> (w = z @ [ch_e] \<or> w = ch_dot # z @ [ch_e])"
      by auto
  next
    assume "\<exists>z. z \<noteq> [] \<and> all_zeros z \<and> (w = z @ [ch_e] \<or> w = ch_dot # z @ [ch_e])"
    then obtain z where z: "z \<noteq> []" "all_zeros z" "w = z @ [ch_e] \<or> w = ch_dot # z @ [ch_e]"
      by blast
    from z(3) show "\<exists>d r. w = d @ r \<and> (d = [] \<or> d = [ch_dot])
             \<and> (\<exists>z e. r = z @ e \<and> (z \<noteq> [] \<and> all_zeros z) \<and> e \<in> {[c] | c. c = ch_e})"
    proof
      assume "w = z @ [ch_e]"
      then show ?thesis using z(1,2)
        by (intro exI [of _ "[]"] exI [of _ "z @ [ch_e]"]) auto
    next
      assume "w = ch_dot # z @ [ch_e]"
      then show ?thesis using z(1,2)
        by (intro exI [of _ "[ch_dot]"] exI [of _ "z @ [ch_e]"]) auto
    qed
  qed
  finally show ?thesis by (simp add: matches_lang)
qed

lemma not_nullable_patterns [simp]: "\<not> nullable point_zeros_re" "\<not> nullable zeros_e_re"
  by (simp_all add: point_zeros_re_def zeros_e_re_def Plus1_def Opt_def)

lemma replace_at_end_no_dot:
  "ch_dot \<notin> set t \<Longrightarrow> replace_at_end point_zeros_re [] t = t"
  by (induction t) (auto simp: matches_point_zeros simp del: matches.simps)

lemma replace_at_end_point:
  assumes "ch_dot \<notin> set ip" "ch_dot \<notin> set fp"
  shows "replace_at_end point_zeros_re [] (ip @ ch_dot # fp)
           = (if fp \<noteq> [] \<and> all_zeros fp then ip else ip @ ch_dot # fp)"
  using assms
proof (induction ip)
  case Nil
  then show ?case
    by (auto simp: matches_point_zeros replace_at_end_no_dot simp del: matches.simps)
next
  case (Cons c ip)
  then have "\<not> matches point_zeros_re (c # ip @ ch_dot # fp)"
    by (auto simp: matches_point_zeros simp del: matches.simps)
  then show ?case using Cons by (simp del: matches.simps)
qed

lemma replace_at_end_minus:
  "replace_at_end point_zeros_re [] (ch_minus # t) = ch_minus # replace_at_end point_zeros_re [] t"
  by (simp add: matches_point_zeros del: matches.simps)

subsection \<open>The round trip through formatNumber\<close>

lemma digits_at_exp:
  "digits_at x k = Some (s, n) \<Longrightarrow> n = ilog 10 x + 1 \<or> n = ilog 10 x + 2"
  by (auto simp: digits_at_def Let_def split: if_splits)

lemma shortest_digits_exp:
  assumes ex: "digits_at x k1 \<noteq> None" and k17: "k1 \<le> 17"
    and k: "k0 \<le> k1"
    and sd: "shortest_digits x k0 = (s, n, k)"
  shows "n = ilog 10 x + 1 \<or> n = ilog 10 x + 2"
  using k sd
proof (induction "k1 - k0" arbitrary: k0)
  case 0
  then have "k0 = k1" by simp
  then obtain s' n' where d: "digits_at x k0 = Some (s', n')" using ex by auto
  then have "(s, n, k) = (s', n', k0)"
    using 0(3) by (subst (asm) shortest_digits.simps) simp
  then show ?case
    using digits_at_exp [OF d] by simp
next
  case (Suc j)
  show ?case
  proof (cases "digits_at x k0")
    case (Some sn)
    obtain s' n' where sn: "sn = (s', n')" by (cases sn)
    have "(s, n, k) = (s', n', k0)"
      using Suc(4) Some by (subst (asm) shortest_digits.simps) (simp add: sn)
    then show ?thesis
      using digits_at_exp [OF Some [unfolded sn]] by simp
  next
    case None
    have lt: "k0 < k1" using Suc(2) by simp
    show ?thesis
    proof (cases "17 \<le> k0")
      case True
      then show ?thesis using lt k17 by simp
    next
      case False
      then have "shortest_digits x (Suc k0) = (s, n, k)"
        using Suc(4) None by (subst (asm) shortest_digits.simps) simp
      then show ?thesis
        using Suc(1) [of "Suc k0"] Suc(2) lt by simp
    qed
  qed
qed

text \<open>String(x) in fixed notation.\<close>

lemma toString_layout:
  assumes x: "0 < x" and sd: "shortest_digits x 1 = (s, n, k)"
    and s: "10 ^ (k - 1) \<le> s" "s < 10 ^ k" "0 < k" and n: "- 5 \<le> n" "n \<le> 21"
  shows "toString (Finite x) = fixed_layout (digits_of s) n"
    "toString (Finite (- x)) = ch_minus # fixed_layout (digits_of s) n"
proof -
  have len: "length (digits_of s) = k"
    using digits_of_length [OF s(3) s(1) s(2)] .
  have sd': "shortest_digits x (Suc 0) = (s, n, k)"
    using sd by simp
  show "toString (Finite x) = fixed_layout (digits_of s) n"
    using x n by (simp add: toString_def sd' fixed_layout_def len Let_def)
  show "toString (Finite (- x)) = ch_minus # fixed_layout (digits_of s) n"
    using x n by (simp add: toString_def sd' fixed_layout_def len Let_def)
qed

lemma digits_are_num: "list_all is_digit ds \<Longrightarrow> list_all is_num_char ds"
  by (simp add: list_all_iff is_num_char_def)

lemma digits_no_dot: "list_all is_digit ds \<Longrightarrow> ch_dot \<notin> set ds"
  by (auto simp: list_all_iff)

lemma all_zeros_value: "all_zeros z \<Longrightarrow> digits_value z = 0"
proof -
  assume "all_zeros z"
  then have "z = replicate (length z) ch_zero"
    by (induction z) (simp_all add: all_zeros_def)
  then show ?thesis
    using digits_value_zeros' [of "length z"] by simp
qed

lemma plain_digits:
  assumes "list_all is_digit ds" "ds \<noteq> []"
  shows "plain_number ds (of_nat (digits_value ds))"
proof -
  have "is_digit (hd ds)" "is_digit (last ds)"
    using assms by (auto simp: list_all_iff)
  then show ?thesis
    using assms
    by (simp add: plain_number_def digits_are_num well_formed_run_def count_dot_digits
        unsigned_decimal_digits)
qed

lemma plain_point:
  assumes ip: "list_all is_digit ip" "ip \<noteq> []" and fp: "list_all is_digit fp" "fp \<noteq> []"
  shows "plain_number (ip @ ch_dot # fp)
           (of_nat (digits_value ip) + of_nat (digits_value fp) / 10 ^ length fp)"
proof -
  have h: "is_digit (hd ip)" "is_digit (last fp)"
    using ip fp by (auto simp: list_all_iff)
  have c: "count_list (ip @ ch_dot # fp) ch_dot = 1"
    using count_dot_digits [OF ip(1)] count_dot_digits [OF fp(1)] by simp
  have n: "list_all is_num_char (ip @ ch_dot # fp)"
    using digits_are_num [OF ip(1)] digits_are_num [OF fp(1)] by (simp add: is_num_char_def)
  show ?thesis
    using h c n ip fp
    by (simp add: plain_number_def well_formed_run_def unsigned_decimal_point)
qed

lemma plain_point_replaced:
  assumes ip: "list_all is_digit ip" "ip \<noteq> []" and fp: "list_all is_digit fp" "fp \<noteq> []"
  shows "plain_number (replace_at_end point_zeros_re [] (ip @ ch_dot # fp))
           (of_nat (digits_value ip) + of_nat (digits_value fp) / 10 ^ length fp)"
proof (cases "all_zeros fp")
  case True
  have "replace_at_end point_zeros_re [] (ip @ ch_dot # fp) = ip"
    using replace_at_end_point [OF digits_no_dot [OF ip(1)] digits_no_dot [OF fp(1)]] True fp(2)
    by simp
  then show ?thesis
    using plain_digits [OF ip] all_zeros_value [OF True] by simp
next
  case False
  have "replace_at_end point_zeros_re [] (ip @ ch_dot # fp) = ip @ ch_dot # fp"
    using replace_at_end_point [OF digits_no_dot [OF ip(1)] digits_no_dot [OF fp(1)]] False
    by simp
  then show ?thesis
    using plain_point [OF ip fp] by simp
qed

lemma plain_fixed:
  assumes m: "list_all is_digit m" "m \<noteq> []"
  shows "plain_number (replace_at_end point_zeros_re [] (fixed_layout m n))
           (of_nat (digits_value m) * 10 powi (n - int (length m)))"
    "plain_number (fixed_layout m n) (of_nat (digits_value m) * 10 powi (n - int (length m)))"
proof -
  let ?q = "of_nat (digits_value m) * 10 powi (n - int (length m)) :: rat"
  have v: "unsigned_decimal (fixed_layout m n) = Some ?q"
    by (rule unsigned_decimal_fixed [OF m])
  consider (a) "int (length m) \<le> n" | (b) "0 < n" "n < int (length m)" | (c) "n \<le> 0"
    by linarith
  then have "plain_number (replace_at_end point_zeros_re [] (fixed_layout m n)) ?q
             \<and> plain_number (fixed_layout m n) ?q"
  proof cases
    case a
    let ?t = "m @ replicate (nat (n - int (length m))) ch_zero"
    have t: "fixed_layout m n = ?t" using a by (simp add: fixed_layout_def)
    have d: "list_all is_digit ?t" "?t \<noteq> []" using m by (auto simp: list_all_iff)
    have "plain_number ?t (of_nat (digits_value ?t))"
      by (rule plain_digits [OF d])
    moreover have "unsigned_decimal ?t = Some (of_nat (digits_value ?t))"
      by (rule unsigned_decimal_digits [OF d])
    ultimately have "plain_number ?t ?q"
      using v by (simp add: t)
    moreover have "replace_at_end point_zeros_re [] ?t = ?t"
      by (rule replace_at_end_no_dot [OF digits_no_dot [OF d(1)]])
    ultimately show ?thesis by (simp add: t)
  next
    case b
    let ?ip = "take (nat n) m" and ?fp = "drop (nat n) m"
    have t: "fixed_layout m n = ?ip @ ch_dot # ?fp" using b by (simp add: fixed_layout_def)
    have ip: "list_all is_digit ?ip" "?ip \<noteq> []"
      using m b by (auto simp: list_all_iff dest: in_set_takeD)
    have fp: "list_all is_digit ?fp" "?fp \<noteq> []"
      using m b by (auto simp: list_all_iff dest: in_set_dropD)
    have "unsigned_decimal (?ip @ ch_dot # ?fp)
            = Some (of_nat (digits_value ?ip) + of_nat (digits_value ?fp) / 10 ^ length ?fp)"
      by (rule unsigned_decimal_point [OF ip(1) fp(1) disjI1 [OF ip(2)]])
    then have q: "of_nat (digits_value ?ip) + of_nat (digits_value ?fp) / 10 ^ length ?fp = ?q"
      using v by (simp add: t)
    show ?thesis
      using plain_point_replaced [OF ip fp] plain_point [OF ip fp] unfolding q t by simp
  next
    case c
    let ?ip = "[ch_zero]" and ?fp = "replicate (nat (- n)) ch_zero @ m"
    have "0 < length m" using m(2) by simp
    then have "\<not> int (length m) \<le> n" using c by linarith
    then have t: "fixed_layout m n = ?ip @ ch_dot # ?fp" using c by (simp add: fixed_layout_def)
    have ip: "list_all is_digit ?ip" "?ip \<noteq> []" by simp_all
    have fp: "list_all is_digit ?fp" "?fp \<noteq> []" using m by (auto simp: list_all_iff)
    have "unsigned_decimal (?ip @ ch_dot # ?fp)
            = Some (of_nat (digits_value ?ip) + of_nat (digits_value ?fp) / 10 ^ length ?fp)"
      by (rule unsigned_decimal_point [OF ip(1) fp(1) disjI1 [OF ip(2)]])
    then have q: "of_nat (digits_value ?ip) + of_nat (digits_value ?fp) / 10 ^ length ?fp = ?q"
      using v by (simp only: t) simp
    show ?thesis
      using plain_point_replaced [OF ip fp] plain_point [OF ip fp] unfolding q t by simp
  qed
  then show "plain_number (replace_at_end point_zeros_re [] (fixed_layout m n)) ?q"
    "plain_number (fixed_layout m n) ?q"
    by simp_all
qed

lemma evaluate_plain:
  assumes p: "plain_number t q" and f: "round64 q = Finite x"
  shows "evaluate t = Inr (Finite x)" "evaluate (ch_minus # t) = Inr (js_neg (Finite x))"
    "Number t = Finite x" "Number (ch_minus # t) = js_neg (Finite x)"
proof -
  have t: "list_all is_num_char t" "t \<noteq> []" "is_digit (hd t)" "well_formed_run t"
    "unsigned_decimal t = Some q"
    using p by (simp_all add: plain_number_def)
  have N: "Number t = Finite x" "Number (ch_minus # t) = js_neg (Finite x)"
    using Number_decimal [OF t(5) t(2) t(3)] f by simp_all
  have m: "matches number_re t"
    using t(4) matches_number_re [OF t(1)] by simp
  have fin: "isFinite (Number t)" by (simp add: N)
  show "evaluate t = Inr (Finite x)" "evaluate (ch_minus # t) = Inr (js_neg (Finite x))"
    using evaluate_run [OF t(1) t(2) m fin] by (simp_all add: N)
  show "Number t = Finite x" "Number (ch_minus # t) = js_neg (Finite x)"
    by (rule N)+
qed

lemma two_powi_neg: "(2::rat) powi (- int k) = 1 / 2 ^ k"
  by (simp add: power_int_minus divide_inverse)

lemma normal_range:
  fixes q :: rat
  assumes "1 / 10 ^ 7 \<le> q" "q < 10 ^ 14"
  shows "2 powi (- 1022) \<le> \<bar>q\<bar>" "\<bar>q\<bar> < 2 powi 1023"
proof -
  have q: "0 < q" using assms(1) by (rule less_le_trans [rotated]) simp
  have "(2::rat) powi (- 1022) \<le> 2 powi (- 24)"
    by (simp only: two_powi_le_iff)
  also have "(2::rat) powi (- 24) = 1 / 2 ^ 24"
    using two_powi_neg [of 24] by simp
  also have "\<dots> \<le> 1 / 10 ^ 7" by simp
  also have "\<dots> \<le> q" by (rule assms(1))
  finally show "2 powi (- 1022) \<le> \<bar>q\<bar>" using q by (simp only: abs_of_pos)
  have "q < 2 ^ 47" using assms(2) by simp
  also have "(2::rat) ^ 47 = 2 powi 47" by simp
  also have "(2::rat) powi 47 < 2 powi 1023"
    by (simp only: two_powi_less_iff)
  finally show "\<bar>q\<bar> < 2 powi 1023" using q by (simp only: abs_of_pos)
qed

lemma round64_near:
  fixes q :: rat
  assumes "1 / 10 ^ 7 \<le> q" "q < 10 ^ 14"
  shows "\<exists>x. round64 q = Finite x \<and> 0 < x \<and> \<bar>x - q\<bar> \<le> q / 2 ^ 53"
proof -
  have q: "0 < q" using assms(1) by (rule less_le_trans [rotated]) simp
  obtain r where r: "round64 q = Finite r" "\<bar>r - q\<bar> \<le> \<bar>q\<bar> * 2 powi (- 53)" "0 < q \<longrightarrow> 0 < r"
    using round64_normal [OF normal_range [OF assms]] by blast
  have p: "(2::rat) powi (- 53) = 1 / 2 ^ 53"
    using two_powi_neg [of 53] by simp
  have "\<bar>q\<bar> * 2 powi (- 53) = q / 2 ^ 53"
    unfolding p abs_of_pos [OF q] by simp
  then have "\<bar>r - q\<bar> \<le> q / 2 ^ 53"
    using r(2) by (simp only:)
  then show ?thesis using r(1,3) q by blast
qed

lemma lit_1e12_val: "lit_1e12 = Finite (10 ^ 12)"
  by (simp add: lit_1e12_def)

lemma lit_1e_6_val:
  "\<exists>l. lit_1e_6 = Finite l \<and> 0 < l \<and> \<bar>l - 1 / 10 ^ 6\<bar> \<le> (1 / 10 ^ 6) / 2 ^ 53"
proof -
  have "(1::rat) / 10 ^ 7 \<le> 1 / 10 ^ 6" "(1::rat) / 10 ^ 6 < 10 ^ 14"
    by simp_all
  then show ?thesis
    using round64_near [of "1 / 10 ^ 6"] unfolding lit_1e_6_def by (simp only:)
qed

lemma toPrecision_Number:
  assumes a: "0 < a" and sd: "sci_digits 12 a = (n, e)" and e: "- 6 \<le> e" "e \<le> 12"
    and n: "10 ^ 11 \<le> n" "n < 10 ^ 12"
    and f: "round64 (of_nat n * 10 powi (e - 11)) = Finite x"
  shows "Number (toPrecision 12 (Finite a)) = Finite x"
    "Number (toPrecision 12 (Finite (- a))) = js_neg (Finite x)"
proof -
  define m where "m = digits_of n"
  have len: "length m = 12"
    using digits_of_length [of 12 n] n by (simp add: m_def)
  have dig: "list_all is_digit m" and ne: "m \<noteq> []" and dv: "digits_value m = n"
    by (simp_all add: m_def digits_of_digits digits_of_nonempty digits_of_value)
  have "Number (toPrecision 12 (Finite a)) = Finite x
        \<and> Number (toPrecision 12 (Finite (- a))) = js_neg (Finite x)"
  proof (cases "e = 12")
    case True
    obtain c r where cr: "m = c # r" using ne by (cases m) auto
    have c: "is_digit c" and r: "list_all is_digit r" and lr: "length r = 11"
      using dig len by (simp_all add: cr)
    have pf: "point_after_first m = [c] @ ch_dot # r"
      using lr by (simp add: point_after_first_def cr)
    have tp: "toPrecision 12 (Finite a) = [c] @ ch_dot # r @ exp_suffix 12"
      "toPrecision 12 (Finite (- a)) = ch_minus # [c] @ ch_dot # r @ exp_suffix 12"
      using a True pf by (simp_all add: toPrecision_def sd m_def [symmetric])
    have "digits_value m = digits_value [c] * 10 ^ 11 + digits_value r"
      using digits_value_append [of "[c]" r] by (simp add: cr lr)
    then have val: "(of_nat (digits_value [c]) + of_nat (digits_value r) / 10 ^ length r) * 10 powi 12
                 = (of_nat n * 10 powi (e - 11) :: rat)"
      by (simp add: dv [symmetric] lr True field_simps)
    have ud: "unsigned_decimal ([c] @ ch_dot # r @ exp_suffix 12) = Some (of_nat n * 10 powi (e - 11))"
      using unsigned_decimal_point_exp [of "[c]" r 12] c r unfolding val by simp
    show ?thesis
      using Number_decimal [OF ud] c f unfolding tp by simp
  next
    case False
    then have e11: "e \<le> 11" using e(2) by simp
    have tp: "toPrecision 12 (Finite a) = fixed_layout m (e + 1)"
      "toPrecision 12 (Finite (- a)) = ch_minus # fixed_layout m (e + 1)"
      using a e e11 by (auto simp: toPrecision_def sd m_def [symmetric] fixed_layout_def len nat_add_distrib)
    have "plain_number (fixed_layout m (e + 1)) (of_nat (digits_value m) * 10 powi (e + 1 - int (length m)))"
      by (rule plain_fixed(2) [OF dig ne])
    then have "plain_number (fixed_layout m (e + 1)) (of_nat n * 10 powi (e - 11))"
      by (simp add: dv len)
    then show ?thesis
      using evaluate_plain(3,4) [OF _ f] unfolding tp by blast
  qed
  then show "Number (toPrecision 12 (Finite a)) = Finite x"
    "Number (toPrecision 12 (Finite (- a))) = js_neg (Finite x)"
    by simp_all
qed

lemma ilog10_ge: "0 < a \<Longrightarrow> 10 powi k \<le> a \<Longrightarrow> k \<le> ilog 10 a"
proof -
  assume a: "0 < a" and k: "10 powi k \<le> a"
  have "(10::rat) powi k < 10 powi (ilog 10 a + 1)"
    using k ilog10_bounds(2) [OF a] by (rule le_less_trans)
  then have "k < ilog 10 a + 1" by (simp only: ten_powi_less_iff)
  then show ?thesis by simp
qed

lemma ilog10_lt: "0 < a \<Longrightarrow> a < 10 powi k \<Longrightarrow> ilog 10 a < k"
proof -
  assume a: "0 < a" and k: "a < 10 powi k"
  have "(10::rat) powi (ilog 10 a) < 10 powi k"
    using ilog10_bounds(1) [OF a] k by (rule le_less_trans)
  then show ?thesis by (simp only: ten_powi_less_iff)
qed

lemma ten_powi_numeral:
  "(10::rat) powi (- 6) = 1 / 10 ^ 6" "(10::rat) powi (- 7) = 1 / 10 ^ 7"
  "(10::rat) powi (- 5) = 1 / 10 ^ 5"
  "(10::rat) powi (- 17) = 1 / 10 ^ 17" "(10::rat) powi (- 18) = 1 / 10 ^ 18"
  "(10::rat) powi 12 = 10 ^ 12" "(10::rat) powi 13 = 10 ^ 13" "(10::rat) powi 14 = 10 ^ 14"
  "(10::rat) powi 11 = 10 ^ 11"
  using powi_10_neg [of 6] powi_10_neg [of 7] powi_10_neg [of 5] powi_10_neg [of 17]
    powi_10_neg [of 18] powi_10_nonneg [of 12] powi_10_nonneg [of 13] powi_10_nonneg [of 14]
    powi_10_nonneg [of 11]
  by simp_all

lemma shortest_digits_low:
  assumes rd: "round64 (1 / 10 ^ 6) = Finite x" and lt: "x < 1 / 10 ^ 6"
    and ge: "1 / 10 ^ 6 - (1 / 10 ^ 6) / 2 ^ 53 \<le> x"
  shows "shortest_digits x 1 = (1, - 5, 1)"
proof -
  have x: "0 < x" using ge by simp
  have "(10::rat) powi (- 7) \<le> x" "x < 10 powi (- 7 + 1)"
    using ge lt by (simp_all add: ten_powi_numeral)
  then have il: "ilog 10 x = - 7"
    using ilog_eqI [of 10 "- 7" x] by simp
  define n0 where "n0 = ilog 10 x + 1"
  define u :: rat where "u = 10 powi (n0 - int 1)"
  define A where "A = x / u"
  define lo where "lo = \<lfloor>A\<rfloor>"
  define hi where "hi = \<lceil>A\<rceil>"
  define ok where "ok = (\<lambda>c. round64 (of_int c * u) = Finite x)"
  define c where "c = (if ok lo \<and> ok hi then
                 (if A - of_int lo < of_int hi - A then lo
                  else if of_int hi - A < A - of_int lo then hi
                  else if even lo then lo else hi)
               else if ok lo then lo else hi)"
  have da: "digits_at x 1 = (if ok lo \<or> ok hi
         then Some (if c = 10 ^ 1 then (10 ^ (1 - 1), n0 + 1) else (nat c, n0)) else None)"
    unfolding digits_at_def Let_def n0_def [symmetric] u_def [symmetric] A_def [symmetric]
      lo_def [symmetric] hi_def [symmetric] c_def ok_def
    by simp
  have n0: "n0 = - 6" by (simp add: n0_def il)
  have u: "u = 1 / 10 ^ 7" by (simp add: u_def n0 ten_powi_numeral)
  have A: "A = x * 10 ^ 7" by (simp add: A_def u)
  have Ab: "19 / 2 < A" "A < 10" using ge lt by (simp_all add: A)
  have fl: "lo = 9" unfolding lo_def using Ab by (intro floor_unique) simp_all
  have ce: "hi = 10" unfolding hi_def using Ab by (intro ceiling_unique) simp_all
  have okhi: "ok hi"
    using rd by (simp add: ok_def ce u)
  have chi: "c = hi"
    using okhi Ab by (simp add: c_def fl ce)
  have "digits_at x 1 = Some (1, - 5)"
    unfolding da using okhi chi by (simp add: ce n0)
  then show ?thesis
    by (subst shortest_digits.simps) (simp only: option.case prod.case)
qed

lemma abs_diff_bounds:
  fixes x :: rat
  shows "\<bar>x - q\<bar> \<le> d \<Longrightarrow> q - d \<le> x \<and> x \<le> q + d"
  by (auto simp: abs_le_iff)

lemma formatNumber_fixed:
  assumes a: "0 < a" and lit: "lit_1e_6 = Finite l" and lo: "l \<le> a" and hi: "a < 10 ^ 12"
  shows "formatNumber (Finite a) = replace_at_end point_zeros_re [] (toString (Number (toPrecision 12 (Finite a))))"
    "formatNumber (Finite (- a)) = replace_at_end point_zeros_re [] (toString (Number (toPrecision 12 (Finite (- a)))))"
  using a lo hi
  by (simp_all add: formatNumber_def lit lit_1e12_val js_ge_def js_lt_def strict_eq_def Let_def)

lemma round_trip_positive:
  assumes lit: "lit_1e_6 = Finite l" and lo: "l \<le> a" and hi: "a < 10 ^ 12"
  shows "\<exists>x. 0 < x \<and> evaluate (formatNumber (Finite a)) = Inr (Finite x)
           \<and> evaluate (formatNumber (Finite (- a))) = Inr (Finite (- x))
           \<and> \<bar>x - a\<bar> \<le> a / 10 ^ 11"
proof -
  obtain l' where l': "lit_1e_6 = Finite l'" "0 < l'" "\<bar>l' - 1 / 10 ^ 6\<bar> \<le> (1 / 10 ^ 6) / 2 ^ 53"
    using lit_1e_6_val by blast
  have "l' = l" using l'(1) unfolding lit by simp
  then have l: "0 < l" "1 / 10 ^ 6 - (1 / 10 ^ 6) / 2 ^ 53 \<le> l"
    using l'(2) abs_diff_bounds [OF l'(3)] by simp_all
  have a: "0 < a" using l(1) lo by simp
  have a_lo: "1 / 10 ^ 6 - (1 / 10 ^ 6) / 2 ^ 53 \<le> a" using l(2) lo by simp
  obtain n e where sd: "sci_digits 12 a = (n, e)" by (cases "sci_digits 12 a")
  have n: "10 ^ 11 \<le> n" "n < 10 ^ 12"
    and near: "\<bar>of_nat n * 10 powi (e - 11) - a\<bar> \<le> 10 powi (ilog 10 a - 11) / 2"
    and e_il: "ilog 10 a \<le> e" "e \<le> ilog 10 a + 1"
    using sci_digits_props [OF a _ sd] by simp_all
  define u :: rat where "u = 10 powi (e - 11)"
  define dec where "dec = of_nat n * u"
  have u: "0 < u" by (simp add: u_def)
  have "(of_nat (10 ^ 11) :: rat) \<le> of_nat n" "(of_nat n :: rat) < of_nat (10 ^ 12)"
    using n by (simp_all only: of_nat_le_iff of_nat_less_iff)
  then have nr: "(10::rat) ^ 11 \<le> of_nat n" "of_nat n < (10::rat) ^ 12"
    by simp_all
  have il_hi: "ilog 10 a < 12"
    using ilog10_lt [OF a, of 12] hi by (simp add: ten_powi_numeral)
  have il_lo: "- 7 \<le> ilog 10 a"
    using ilog10_ge [OF a, of "- 7"] a_lo by (simp add: ten_powi_numeral)
  have half: "10 powi (ilog 10 a - 11) / 2 \<le> a / (2 * 10 ^ 11)"
  proof -
    have "(10::rat) powi (ilog 10 a) = 10 powi (ilog 10 a - 11) * 10 powi 11"
      using ten_powi_add [of "ilog 10 a - 11" 11] by simp
    then have "10 powi (ilog 10 a - 11) * 10 ^ 11 \<le> a"
      using ilog10_bounds(1) [OF a] by (simp add: ten_powi_numeral)
    then show ?thesis by (simp add: field_simps)
  qed
  have near': "\<bar>dec - a\<bar> \<le> a / (2 * 10 ^ 11)"
    using near half by (simp add: dec_def u_def)
  have e_hi: "e \<le> 12" using e_il(2) il_hi by simp
  have e_lo: "- 6 \<le> e"
  proof (rule ccontr)
    assume "\<not> - 6 \<le> e"
    then have e7: "e = - 7" "ilog 10 a = - 7" using e_il(1) il_lo by simp_all
    have uu: "u = 1 / 10 ^ 18" by (simp add: u_def e7 ten_powi_numeral)
    have "n \<le> 10 ^ 12 - 1" using n(2) by simp
    then have "(of_nat n :: rat) \<le> of_nat (10 ^ 12 - 1)" by (simp only: of_nat_le_iff)
    then have nle: "of_nat n \<le> (10::rat) ^ 12 - 1" by simp
    have "dec = of_nat n / 10 ^ 18" unfolding dec_def uu by simp
    also have "\<dots> \<le> (10 ^ 12 - 1) / 10 ^ 18" using nle by (intro divide_right_mono) simp_all
    finally have "dec \<le> 1 / 10 ^ 6 - 1 / 10 ^ 18" by simp
    moreover have "\<bar>dec - a\<bar> \<le> (1 / 10 ^ 18) / 2"
      using near by (simp add: dec_def u_def e7 ten_powi_numeral)
    ultimately show False using a_lo abs_diff_bounds [of dec a "(1 / 10 ^ 18) / 2"] by simp
  qed
  have dec_lo: "10 powi e \<le> dec"
  proof -
    have "(10::rat) powi e = 10 powi 11 * u"
      using ten_powi_add [of 11 "e - 11"] by (simp add: u_def)
    then show ?thesis
      using nr(1) u by (simp add: dec_def ten_powi_numeral)
  qed
  have dec_hi: "dec < 10 ^ 12 * u"
    using nr(2) u by (simp add: dec_def)
  have dec6: "1 / 10 ^ 6 \<le> dec"
  proof -
    have "(10::rat) powi (- 6) \<le> 10 powi e" using e_lo by (simp only: ten_powi_le_iff)
    then show ?thesis using dec_lo by (simp add: ten_powi_numeral)
  qed
  have u_hi: "u \<le> 10"
  proof -
    have "(10::rat) powi (e - 11) \<le> 10 powi 1" using e_hi by (simp only: ten_powi_le_iff)
    then show ?thesis by (simp add: u_def)
  qed
  have dec13: "dec < 10 ^ 13" using dec_hi u_hi by simp
  obtain x where x: "round64 dec = Finite x" "0 < x" "\<bar>x - dec\<bar> \<le> dec / 2 ^ 53"
    using round64_near [of dec] dec6 dec13 by auto
  note xb = abs_diff_bounds [OF x(3)]
  note ab = abs_diff_bounds [OF near']
  have rd: "round64 (of_nat n * 10 powi (e - 11)) = Finite x"
    using x(1) by (simp add: dec_def u_def)
  have num: "Number (toPrecision 12 (Finite a)) = Finite x"
    "Number (toPrecision 12 (Finite (- a))) = js_neg (Finite x)"
    using toPrecision_Number [OF a sd e_lo e_hi n rd] by simp_all
  have fmt: "formatNumber (Finite a) = replace_at_end point_zeros_re [] (toString (Finite x))"
    "formatNumber (Finite (- a)) = replace_at_end point_zeros_re [] (toString (Finite (- x)))"
    using formatNumber_fixed [OF a lit lo hi] x(2) by (simp_all add: num)
  have ex: "digits_at x 12 \<noteq> None"
  proof (rule digits_at_exists [OF x(2) _ _ _ rd])
    show "0 < (12::nat)" by simp
    show "10 ^ (12 - 1) \<le> n" "n < 10 ^ 12" using n by simp_all
    have "(10::rat) powi (e - 11) = 10 powi 1 * 10 powi (e - 11 - 1)"
      using ten_powi_add [of 1 "e - 11 - 1"] by simp
    then have "10 powi (e - 11 - 1) = u / 10" by (simp add: u_def)
    moreover have "\<bar>x - dec\<bar> < u / 10" using x(3) dec_hi u by simp
    ultimately show "\<bar>x - of_nat n * 10 powi (e - 11)\<bar> < 10 powi (e - 11 - 1)"
      by (simp add: dec_def u_def)
  qed
  obtain s nn k where sh: "shortest_digits x 1 = (s, nn, k)"
    by (cases "shortest_digits x 1")
  have snd: "round64 (of_nat s * 10 powi (nn - int k)) = Finite x" "10 ^ (k - 1) \<le> s" "s < 10 ^ k"
    "0 < k"
    using shortest_digits_sound [OF x(2) ex _ _ _ sh] by simp_all
  have nn: "nn = ilog 10 x + 1 \<or> nn = ilog 10 x + 2"
    using shortest_digits_exp [OF ex _ _ sh] by simp
  have x14: "x < 10 powi 14"
    using xb dec13 by (simp add: ten_powi_numeral)
  have nn_hi: "nn \<le> 21"
    using nn ilog10_lt [OF x(2) x14] by auto
  have nn_lo: "- 5 \<le> nn"
  proof (cases "1 / 10 ^ 6 \<le> x")
    case True
    then have "- 6 \<le> ilog 10 x"
      using ilog10_ge [OF x(2), of "- 6"] by (simp add: ten_powi_numeral)
    then show ?thesis using nn by auto
  next
    case False
    have "dec = 1 / 10 ^ 6"
    proof (rule ccontr)
      assume ne: "dec \<noteq> 1 / 10 ^ 6"
      have "1 / 10 ^ 6 + 1 / 10 ^ 17 \<le> dec"
      proof (cases "e = - 6")
        case True
        have uu: "u = 1 / 10 ^ 17" by (simp add: u_def True ten_powi_numeral)
        have "n \<noteq> 10 ^ 11" using ne by (auto simp: dec_def uu)
        then have "10 ^ 11 + 1 \<le> n" using n(1) by simp
        then have "(of_nat (10 ^ 11 + 1) :: rat) \<le> of_nat n" by (simp only: of_nat_le_iff)
        then have nge: "(10::rat) ^ 11 + 1 \<le> of_nat n" by simp
        have "(1::rat) / 10 ^ 6 + 1 / 10 ^ 17 = (10 ^ 11 + 1) / 10 ^ 17" by simp
        also have "\<dots> \<le> of_nat n / 10 ^ 17" using nge by (intro divide_right_mono) simp_all
        also have "\<dots> = dec" unfolding dec_def uu by simp
        finally show ?thesis .
      next
        case False
        then have "- 5 \<le> e" using e_lo by simp
        then have "(10::rat) powi (- 5) \<le> 10 powi e" by (simp only: ten_powi_le_iff)
        then show ?thesis using dec_lo by (simp add: ten_powi_numeral)
      qed
      then show False using xb False by simp
    qed
    then have d6: "dec = 1 / 10 ^ 6" .
    have r6: "round64 (1 / 10 ^ 6) = Finite x" using x(1) unfolding d6 .
    have lt6: "x < 1 / 10 ^ 6" using False by simp
    have ge6: "1 / 10 ^ 6 - (1 / 10 ^ 6) / 2 ^ 53 \<le> x" using xb unfolding d6 by blast
    have "shortest_digits x 1 = (1, - 5, 1)"
      by (rule shortest_digits_low [OF r6 lt6 ge6])
    then show ?thesis using sh by simp
  qed
  define ds where "ds = digits_of s"
  have ds: "list_all is_digit ds" "ds \<noteq> []" "digits_value ds = s" "length ds = k"
    using digits_of_length [OF snd(4) snd(2) snd(3)]
    by (simp_all add: ds_def digits_of_digits digits_of_nonempty digits_of_value)
  have ts: "toString (Finite x) = fixed_layout ds nn"
    "toString (Finite (- x)) = ch_minus # fixed_layout ds nn"
    using toString_layout [OF x(2) sh snd(2) snd(3) snd(4) nn_lo nn_hi] by (simp_all add: ds_def)
  have pl: "plain_number (replace_at_end point_zeros_re [] (fixed_layout ds nn))
              (of_nat s * 10 powi (nn - int k))"
    using plain_fixed(1) [OF ds(1) ds(2), of nn] by (simp add: ds)
  have ev: "evaluate (formatNumber (Finite a)) = Inr (Finite x)"
    "evaluate (formatNumber (Finite (- a))) = Inr (Finite (- x))"
    using evaluate_plain(1,2) [OF pl snd(1)] x(2)
    by (simp_all add: fmt ts replace_at_end_minus del: replace_at_end.simps matches.simps)
  have "\<bar>x - a\<bar> \<le> a / 10 ^ 11"
    unfolding abs_le_iff using xb ab a by simp
  then show ?thesis
    using x(2) ev by blast
qed

lemma formatNumber_zero:
  "formatNumber (Finite 0) = [ch_zero]" "formatNumber NegZero = [ch_zero]"
  "evaluate [ch_zero] = Inr (Finite 0)"
proof -
  have z: "list_all is_digit (replicate 11 ch_zero)" "list_all is_digit [ch_zero]"
    by (simp_all add: list_all_iff)
  have "unsigned_decimal ([ch_zero] @ ch_dot # replicate 11 ch_zero)
          = Some (of_nat (digits_value [ch_zero]) + of_nat (digits_value (replicate 11 ch_zero)) / 10 ^ length (replicate 11 ch_zero :: jsstring))"
    by (rule unsigned_decimal_point [OF z(2) z(1)]) simp
  also have "digits_value (replicate 11 ch_zero) = 0" by (rule digits_value_zeros')
  also have "digits_value [ch_zero] = 0" using digits_value_zeros' [of 1] by simp
  finally have ud: "unsigned_decimal ([ch_zero] @ ch_dot # replicate 11 ch_zero) = Some 0"
    by simp
  have N: "Number (ch_zero # ch_dot # replicate 11 ch_zero) = Finite 0"
    using Number_decimal(1) [OF ud] by simp
  have tp: "toPrecision 12 (Finite 0) = [ch_zero] @ ch_dot # replicate 11 ch_zero"
    "toPrecision 12 NegZero = [ch_zero] @ ch_dot # replicate 11 ch_zero"
    by (simp_all add: toPrecision_def)
  have ts: "toString (Finite 0) = [ch_zero]"
    by (simp add: toString_def)
  have rp: "replace_at_end point_zeros_re [] [ch_zero] = [ch_zero]"
    by (rule replace_at_end_no_dot) (simp add: char_defs)
  show "formatNumber (Finite 0) = [ch_zero]" "formatNumber NegZero = [ch_zero]"
    unfolding formatNumber_def by (simp_all add: strict_eq_def tp N ts rp Let_def del: replace_at_end.simps)
  have "plain_number [ch_zero] (of_nat (digits_value [ch_zero]))"
    by (rule plain_digits) simp_all
  then have "plain_number [ch_zero] 0"
    using digits_value_zeros' [of 1] by simp
  then show "evaluate [ch_zero] = Inr (Finite 0)"
    using evaluate_plain(1) [of "[ch_zero]" 0 0] by simp
qed

lemma round_trip_fixed:
  assumes v: "isFinite v" and r: "val v = 0 \<or> (val lit_1e_6 \<le> \<bar>val v\<bar> \<and> \<bar>val v\<bar> < 10 ^ 12)"
  shows "\<exists>r. evaluate (formatNumber v) = Inr r \<and> isFinite r \<and> \<bar>val r - val v\<bar> \<le> \<bar>val v\<bar> / 10 ^ 11"
proof (cases "val v = 0")
  case True
  then have "v = Finite 0 \<or> v = NegZero" using v by (cases v) simp_all
  then have "evaluate (formatNumber v) = Inr (Finite 0)"
    using formatNumber_zero by auto
  then show ?thesis using True by simp
next
  case False
  then obtain q where q: "v = Finite q" "q \<noteq> 0" using v by (cases v) simp_all
  obtain l where l: "lit_1e_6 = Finite l" using lit_1e_6_val by blast
  have rng: "l \<le> \<bar>q\<bar>" "\<bar>q\<bar> < 10 ^ 12" using r False by (simp_all add: q l)
  obtain x where x: "0 < x" "evaluate (formatNumber (Finite \<bar>q\<bar>)) = Inr (Finite x)"
    "evaluate (formatNumber (Finite (- \<bar>q\<bar>))) = Inr (Finite (- x))" "\<bar>x - \<bar>q\<bar>\<bar> \<le> \<bar>q\<bar> / 10 ^ 11"
    using round_trip_positive [OF l rng] by blast
  show ?thesis
  proof (cases "0 < q")
    case True
    then show ?thesis using x(2,4) by (simp add: q)
  next
    case False
    then have neg: "q < 0" using q(2) by simp
    then have "evaluate (formatNumber v) = Inr (Finite (- x))" using x(3) by (simp add: q)
    moreover have "\<bar>- x - q\<bar> \<le> \<bar>q\<bar> / 10 ^ 11" using x(4) neg by (simp add: abs_if split: if_splits)
    ultimately show ?thesis by (simp add: q)
  qed
qed

lemma fixed_guard:
  assumes v: "isFinite v"
  shows "(val v = 0 \<or> (val lit_1e_6 \<le> \<bar>val v\<bar> \<and> \<bar>val v\<bar> < 10 ^ 12))
     \<longleftrightarrow> \<not> (\<not> strict_eq (Math_abs v) (Finite 0)
              \<and> (js_ge (Math_abs v) lit_1e12 \<or> js_lt (Math_abs v) lit_1e_6))"
proof -
  obtain l where l: "lit_1e_6 = Finite l" using lit_1e_6_val by blast
  show ?thesis
    using v by (cases v) (auto simp: l lit_1e12_val strict_eq_def js_ge_def js_lt_def)
qed

subsection \<open>Exponent notation\<close>

lemma find_unique:
  assumes "x \<in> set xs" "P x" "\<And>y. y \<in> set xs \<Longrightarrow> P y \<Longrightarrow> y = x"
  shows "List.find P xs = Some x"
proof (cases "List.find P xs")
  case None
  then show ?thesis using assms(1,2) by (auto simp: find_None_iff)
next
  case (Some y)
  then obtain i where "i < length xs" "P (xs ! i)" "y = xs ! i"
    unfolding find_Some_iff by blast
  then have "y \<in> set xs" "P y" by simp_all
  then show ?thesis using assms(3) Some by simp
qed

lemma all_zeros_no_e: "all_zeros z \<Longrightarrow> ch_e \<notin> set z"
  by (auto simp: all_zeros_def list_all_iff char_defs)

lemma all_zeros_no_dot: "all_zeros z \<Longrightarrow> ch_dot \<notin> set z"
  by (auto simp: all_zeros_def list_all_iff char_defs)

lemma split_at_first:
  "x \<notin> set b \<Longrightarrow> x \<notin> set p \<Longrightarrow> b @ x # s = p @ x # t \<Longrightarrow> b = p \<and> s = t"
proof (induction b arbitrary: p)
  case Nil
  then show ?case by (cases p) auto
next
  case (Cons c b)
  then show ?case by (cases p) auto
qed

text \<open>A match of the pattern ends at the first \<^verbatim>\<open>e\<close>.\<close>

lemma match_zeros_e_prefix:
  assumes "ch_e \<notin> set pre" "matches zeros_e_re (take n (pre @ ch_e # post))"
  shows "n \<le> length (pre @ ch_e # post) \<Longrightarrow> n = Suc (length pre)"
    "matches zeros_e_re (pre @ [ch_e])"
proof -
  obtain z where z: "z \<noteq> []" "all_zeros z"
    "take n (pre @ ch_e # post) = z @ [ch_e] \<or> take n (pre @ ch_e # post) = ch_dot # z @ [ch_e]"
    using assms(2) unfolding matches_zeros_e by blast
  define w where "w = take n (pre @ ch_e # post)"
  have ne: "ch_e \<notin> set z" "ch_e \<notin> set (ch_dot # z)"
    using all_zeros_no_e [OF z(2)] by simp_all
  have "w = z @ [ch_e] \<or> w = (ch_dot # z) @ [ch_e]"
    using z(3) by (simp add: w_def)
  then obtain b where b: "w = b @ [ch_e]" "ch_e \<notin> set b"
    using ne by blast
  have "\<not> n \<le> length pre"
  proof
    assume "n \<le> length pre"
    then have "w = take n pre" by (simp add: w_def)
    then have "set w \<subseteq> set pre" by (simp add: set_take_subset)
    then show False using assms(1) b(1) by auto
  qed
  then have n: "length pre < n" by simp
  then have w: "w = pre @ ch_e # take (n - Suc (length pre)) post"
    by (simp add: w_def take_Cons')
  have "b @ [ch_e] = pre @ ch_e # take (n - Suc (length pre)) post"
    using b(1) w by simp
  then have "b = pre \<and> [] = take (n - Suc (length pre)) post"
    using assms(1) b(2) by (intro split_at_first [of ch_e]) auto
  then have bp: "b = pre" and tp: "take (n - Suc (length pre)) post = []" by auto
  show "matches zeros_e_re (pre @ [ch_e])"
    using assms(2) unfolding w_def [symmetric] b(1) bp .
  have "length w = Suc (length pre)" using b(1) bp by simp
  moreover have "length w = min n (length (pre @ ch_e # post))" by (simp add: w_def)
  ultimately show "n = Suc (length pre)" if "n \<le> length (pre @ ch_e # post)"
    using n that by (simp add: min_def split: if_splits)
qed

lemma longest_match_e:
  assumes "ch_e \<notin> set pre"
  shows "longest_match zeros_e_re (pre @ ch_e # post)
           = (if matches zeros_e_re (pre @ [ch_e]) then Some (Suc (length pre)) else None)"
proof (cases "matches zeros_e_re (pre @ [ch_e])")
  case True
  have "List.find (\<lambda>n. matches zeros_e_re (take n (pre @ ch_e # post)))
          (rev [0..<Suc (length (pre @ ch_e # post))]) = Some (Suc (length pre))"
  proof (rule find_unique)
    show "Suc (length pre) \<in> set (rev [0..<Suc (length (pre @ ch_e # post))])"
      by (simp del: upt_Suc)
    show "matches zeros_e_re (take (Suc (length pre)) (pre @ ch_e # post))"
      using True by simp
    show "y = Suc (length pre)"
      if "y \<in> set (rev [0..<Suc (length (pre @ ch_e # post))])"
        "matches zeros_e_re (take y (pre @ ch_e # post))" for y
    proof -
      have "y \<le> length (pre @ ch_e # post)" using that(1) by (simp del: upt_Suc)
      then show ?thesis using match_zeros_e_prefix(1) [OF assms that(2)] by blast
    qed
  qed
  then show ?thesis using True by (simp add: longest_match_def)
next
  case False
  have "\<not> matches zeros_e_re (take n (pre @ ch_e # post))" for n
    using match_zeros_e_prefix(2) [OF assms] False by blast
  then show ?thesis using False by (simp add: longest_match_def find_None_iff)
qed

lemma longest_match_no_e:
  assumes "ch_e \<notin> set s"
  shows "longest_match zeros_e_re s = None"
proof -
  have "\<not> matches zeros_e_re (take n s)" for n
  proof
    assume "matches zeros_e_re (take n s)"
    then have "ch_e \<in> set (take n s)" unfolding matches_zeros_e by auto
    then show False using assms by (auto dest: in_set_takeD)
  qed
  then show ?thesis by (simp add: longest_match_def find_None_iff)
qed

lemma replace_first_no_e:
  "ch_e \<notin> set s \<Longrightarrow> replace_first zeros_e_re rep s = s"
  by (induction s) (simp_all add: longest_match_no_e del: matches.simps)

lemma matches_zeros:
  "matches zeros_re w \<longleftrightarrow> (\<exists>z. z \<noteq> [] \<and> all_zeros z \<and> (w = z \<or> w = ch_dot # z))"
proof -
  have opt: "d \<in> lang (Opt (Cls (\<lambda>c. c = ch_dot))) \<longleftrightarrow> d = [] \<or> d = [ch_dot]" for d
    by (auto simp: Opt_def)
  have "w \<in> lang zeros_re \<longleftrightarrow>
          (\<exists>d r. w = d @ r \<and> (d = [] \<or> d = [ch_dot]) \<and> r \<noteq> [] \<and> all_zeros r)"
    unfolding zeros_re_def lang.simps(4) conc_iff opt plus_cls all_zeros_def ..
  also have "\<dots> \<longleftrightarrow> (\<exists>z. z \<noteq> [] \<and> all_zeros z \<and> (w = z \<or> w = ch_dot # z))"
  proof
    assume "\<exists>d r. w = d @ r \<and> (d = [] \<or> d = [ch_dot]) \<and> r \<noteq> [] \<and> all_zeros r"
    then show "\<exists>z. z \<noteq> [] \<and> all_zeros z \<and> (w = z \<or> w = ch_dot # z)"
      by auto
  next
    assume "\<exists>z. z \<noteq> [] \<and> all_zeros z \<and> (w = z \<or> w = ch_dot # z)"
    then obtain z where z: "z \<noteq> []" "all_zeros z" "w = z \<or> w = ch_dot # z"
      by blast
    from z(3) show "\<exists>d r. w = d @ r \<and> (d = [] \<or> d = [ch_dot]) \<and> r \<noteq> [] \<and> all_zeros r"
    proof
      assume "w = z"
      then show ?thesis using z(1,2) by (intro exI [of _ "[]"] exI [of _ z]) auto
    next
      assume "w = ch_dot # z"
      then show ?thesis using z(1,2) by (intro exI [of _ "[ch_dot]"] exI [of _ z]) auto
    qed
  qed
  finally show ?thesis by (simp add: matches_lang)
qed

lemma zeros_e_iff: "matches zeros_e_re (w @ [ch_e]) \<longleftrightarrow> matches zeros_re w"
  unfolding matches_zeros_e matches_zeros by auto

lemma not_nullable_zeros: "\<not> nullable zeros_re"
  by (simp add: zeros_re_def Plus1_def Opt_def)

text \<open>
  Before the only \<^verbatim>\<open>e\<close> of a string, replacing the first match of \<^verbatim>\<open>/\.?0+e/\<close> by
  \<^verbatim>\<open>e\<close> deletes the match of \<^verbatim>\<open>/\.?0+$/\<close> in what precedes the \<^verbatim>\<open>e\<close>.
\<close>

lemma replace_first_zeros_e:
  assumes "ch_e \<notin> set p" "ch_e \<notin> set post"
  shows "replace_first zeros_e_re [ch_e] (p @ ch_e # post)
           = replace_at_end zeros_re [] p @ ch_e # post"
  using assms(1)
proof (induction p)
  case Nil
  have "longest_match zeros_e_re ([] @ ch_e # post) = None"
    using longest_match_e [of "[]" post] zeros_e_iff [of "[]"] matches_zeros [of "[]"] by simp
  then show ?case
    using replace_first_no_e [OF assms(2)]
    by (simp add: not_nullable_zeros del: matches.simps)
next
  case (Cons c p)
  have e: "ch_e \<notin> set (c # p)" "ch_e \<notin> set p" using Cons.prems by simp_all
  have lm: "longest_match zeros_e_re ((c # p) @ ch_e # post)
              = (if matches zeros_re (c # p) then Some (Suc (length (c # p))) else None)"
    using longest_match_e [OF e(1), of post] zeros_e_iff [of "c # p"] by simp
  show ?case
  proof (cases "matches zeros_re (c # p)")
    case True
    then show ?thesis
      using lm by (simp del: matches.simps)
  next
    case False
    then show ?thesis
      using lm Cons.IH [OF e(2)] by (simp del: matches.simps)
  qed
qed

lemma replace_at_end_zeros_digits:
  assumes "list_all is_digit r"
  shows "list_all is_digit (replace_at_end zeros_re [] r)
         \<and> (replace_at_end zeros_re [] r = [] \<longleftrightarrow> all_zeros r)"
  using assms
proof (induction r)
  case Nil
  then show ?case by (simp add: all_zeros_def not_nullable_zeros)
next
  case (Cons c r)
  have c: "c \<noteq> ch_dot" using Cons.prems by auto
  have m: "matches zeros_re (c # r) \<longleftrightarrow> all_zeros (c # r)"
    unfolding matches_zeros using c by auto
  show ?case
    using Cons m by (auto simp del: matches.simps simp: all_zeros_def)
qed

lemma all_zeros_Cons: "all_zeros (c # z) \<longleftrightarrow> c = ch_zero \<and> all_zeros z"
  by (simp add: all_zeros_def)

lemma zero_not_dot: "ch_zero \<noteq> ch_dot" "ch_minus \<noteq> ch_zero"
  by (simp_all add: char_defs)

lemma replace_at_end_zeros_number:
  assumes d: "is_digit d" and r: "list_all is_digit r" "r \<noteq> []"
  shows "\<exists>t. replace_at_end zeros_re [] (d # ch_dot # r) = t
           \<and> replace_at_end zeros_re [] (ch_minus # d # ch_dot # r) = ch_minus # t
           \<and> ch_e \<notin> set t
           \<and> (t = [d] \<or> (\<exists>fp. t = [d] @ ch_dot # fp \<and> list_all is_digit fp \<and> fp \<noteq> []))"
proof -
  have d': "d \<noteq> ch_dot" using d by auto
  have m0: "\<not> matches zeros_re (d # ch_dot # r)"
    unfolding matches_zeros using d' by (auto simp: all_zeros_Cons zero_not_dot)
  have mm: "\<not> matches zeros_re (ch_minus # d # ch_dot # r)"
    unfolding matches_zeros by (auto simp: all_zeros_Cons zero_not_dot)
  have m1: "matches zeros_re (ch_dot # r) \<longleftrightarrow> all_zeros r"
    unfolding matches_zeros using r(2) by (auto simp: all_zeros_Cons zero_not_dot)
  define fp where "fp = replace_at_end zeros_re [] r"
  have fp: "list_all is_digit fp" "fp = [] \<longleftrightarrow> all_zeros r"
    using replace_at_end_zeros_digits [OF r(1)] by (simp_all add: fp_def)
  have t: "replace_at_end zeros_re [] (d # ch_dot # r) = (if all_zeros r then [d] else [d] @ ch_dot # fp)"
    using m0 m1 by (simp add: fp_def del: matches.simps)
  have e: "ch_e \<notin> set fp" "d \<noteq> ch_e"
    using fp(1) d by (auto simp: list_all_iff)
  show ?thesis
    using t mm fp e by (auto simp del: matches.simps replace_at_end.simps simp: replace_at_end.simps(2) [of _ _ ch_minus])
qed

lemma digit_val_le: "is_digit c \<Longrightarrow> digit_val c \<le> 9"
  by (auto simp: is_digit_def digit_val_def word_le_nat_alt)

lemma digits_value_lt: "list_all is_digit ds \<Longrightarrow> digits_value ds < 10 ^ length ds"
proof (induction ds rule: rev_induct)
  case Nil
  show ?case by simp
next
  case (snoc c ds)
  have "digit_val c \<le> 9" "digits_value ds < 10 ^ length ds"
    using snoc by (simp_all add: digit_val_le)
  then show ?case
    by (simp add: digits_value_snoc)
qed

lemma exp_suffix_no_e: "\<exists>post. exp_suffix e = ch_e # post \<and> ch_e \<notin> set post"
proof -
  have "list_all is_digit (digits_of (nat \<bar>e\<bar>))" by (rule digits_of_digits)
  then have "ch_e \<notin> set (digits_of (nat \<bar>e\<bar>))"
    by (auto simp: list_all_iff)
  then show ?thesis
    by (simp add: exp_suffix_def char_defs)
qed

lemma toExponential_layout:
  assumes a: "0 < a"
  shows "\<exists>d r e. toExponential 10 (Finite a) = d # ch_dot # r @ exp_suffix e
           \<and> toExponential 10 (Finite (- a)) = ch_minus # d # ch_dot # r @ exp_suffix e
           \<and> is_digit d \<and> list_all is_digit r \<and> r \<noteq> [] \<and> 1 \<le> digits_value [d]"
proof -
  obtain n e where sd: "sci_digits 11 a = (n, e)" by (cases "sci_digits 11 a")
  have n: "10 ^ 10 \<le> n" "n < 10 ^ 11"
    using sci_digits_props(1,2) [OF a _ sd] by simp_all
  define m where "m = digits_of n"
  have len: "length m = 11"
    using digits_of_length [of 11 n] n by (simp add: m_def)
  have dig: "list_all is_digit m" and dv: "digits_value m = n"
    by (simp_all add: m_def digits_of_digits digits_of_value)
  obtain d r where dr: "m = d # r" using len by (cases m) auto
  have d: "is_digit d" and r: "list_all is_digit r" "length r = 10"
    using dig len by (simp_all add: dr)
  have pf: "point_after_first m = d # ch_dot # r"
    using r(2) by (simp add: point_after_first_def dr)
  have "digits_value m = digits_value [d] * 10 ^ 10 + digits_value r"
    using digits_value_append [of "[d]" r] by (simp add: dr r(2))
  moreover have "digits_value r < 10 ^ 10"
    using digits_value_lt [OF r(1)] by (simp add: r(2))
  ultimately have d1: "1 \<le> digits_value [d]"
    using n(1) dv by (cases "digits_value [d]") simp_all
  have "toExponential 10 (Finite a) = d # ch_dot # r @ exp_suffix e"
    "toExponential 10 (Finite (- a)) = ch_minus # d # ch_dot # r @ exp_suffix e"
    using a by (simp_all add: toExponential_def sd m_def [symmetric] pf)
  then show ?thesis
    using d r d1 by auto
qed

lemma small_number_finite:
  assumes t: "t = [d] \<or> (\<exists>fp. t = [d] @ ch_dot # fp \<and> list_all is_digit fp \<and> fp \<noteq> [])"
    and d: "is_digit d" "1 \<le> digits_value [d]"
  shows "list_all is_num_char t" "t \<noteq> []" "matches number_re t" "isFinite (Number t)"
proof -
  have d9: "digits_value [d] < 10"
    using digits_value_lt [of "[d]"] d(1) by simp
  have "\<exists>q. plain_number t q \<and> 1 \<le> q \<and> q < 10"
    using t
  proof
    assume "t = [d]"
    then have "plain_number t (of_nat (digits_value [d]))"
      using plain_digits [of "[d]"] d(1) by simp
    moreover have "(1::rat) \<le> of_nat (digits_value [d])" "(of_nat (digits_value [d]) :: rat) < 10"
      using d(2) d9 by simp_all
    ultimately show ?thesis by blast
  next
    assume "\<exists>fp. t = [d] @ ch_dot # fp \<and> list_all is_digit fp \<and> fp \<noteq> []"
    then obtain fp where fp: "t = [d] @ ch_dot # fp" "list_all is_digit fp" "fp \<noteq> []" by blast
    define q :: rat where "q = of_nat (digits_value [d]) + of_nat (digits_value fp) / 10 ^ length fp"
    have p: "plain_number t q"
      using plain_point [of "[d]" fp] d(1) fp by (simp add: q_def)
    have "(of_nat (digits_value fp) :: rat) < of_nat (10 ^ length fp)"
      using digits_value_lt [OF fp(2)] by (simp only: of_nat_less_iff)
    then have f1: "(of_nat (digits_value fp) :: rat) / 10 ^ length fp < 1"
      by simp
    have f0: "0 \<le> (of_nat (digits_value fp) :: rat) / 10 ^ length fp"
      by simp
    have "digits_value [d] \<le> 9" using d9 by simp
    then have "(of_nat (digits_value [d]) :: rat) \<le> of_nat 9" "(of_nat 1 :: rat) \<le> of_nat (digits_value [d])"
      using d(2) by (simp_all only: of_nat_le_iff)
    then have "(of_nat (digits_value [d]) :: rat) \<le> 9" "(1 :: rat) \<le> of_nat (digits_value [d])"
      by simp_all
    then have "1 \<le> q" "q < 10"
      unfolding q_def using f0 f1 by linarith+
    then show ?thesis using p by blast
  qed
  then obtain q where q: "plain_number t q" "1 \<le> q" "q < 10" by blast
  obtain x where x: "round64 q = Finite x"
    using round64_near [of q] q(2,3) by auto
  have N: "Number t = Finite x"
    by (rule evaluate_plain(3) [OF q(1) x])
  show "isFinite (Number t)" by (simp add: N)
  show "list_all is_num_char t" "t \<noteq> []"
    using q(1) by (simp_all add: plain_number_def)
  then show "matches number_re t"
    using q(1) matches_number_re [of t] by (simp add: plain_number_def)
qed

lemma exponent_rejected:
  assumes a: "0 < a"
  shows "evaluate (replace_first zeros_e_re [ch_e] (toExponential 10 (Finite a)))
           = Inl (UnexpectedCharacter ch_e)"
    "evaluate (replace_first zeros_e_re [ch_e] (toExponential 10 (Finite (- a))))
           = Inl (UnexpectedCharacter ch_e)"
proof -
  obtain d r e where lay: "toExponential 10 (Finite a) = d # ch_dot # r @ exp_suffix e"
    "toExponential 10 (Finite (- a)) = ch_minus # d # ch_dot # r @ exp_suffix e"
    "is_digit d" "list_all is_digit r" "r \<noteq> []" "1 \<le> digits_value [d]"
    using toExponential_layout [OF a] by blast
  obtain post where post: "exp_suffix e = ch_e # post" "ch_e \<notin> set post"
    using exp_suffix_no_e by blast
  obtain t where t: "replace_at_end zeros_re [] (d # ch_dot # r) = t"
    "replace_at_end zeros_re [] (ch_minus # d # ch_dot # r) = ch_minus # t"
    "t = [d] \<or> (\<exists>fp. t = [d] @ ch_dot # fp \<and> list_all is_digit fp \<and> fp \<noteq> [])"
    using replace_at_end_zeros_number [OF lay(3,4,5)] by blast
  have "ch_e \<noteq> ch_minus" by (simp add: char_defs)
  then have ne: "ch_e \<notin> set (d # ch_dot # r)" "ch_e \<notin> set (ch_minus # d # ch_dot # r)"
    using lay(3,4) by (auto simp: list_all_iff)
  have r1: "replace_first zeros_e_re [ch_e] (toExponential 10 (Finite a)) = t @ ch_e # post"
    using replace_first_zeros_e [OF ne(1) post(2)] unfolding t(1)
    by (simp add: lay(1) post(1) del: replace_first.simps replace_at_end.simps matches.simps)
  have r2: "replace_first zeros_e_re [ch_e] (toExponential 10 (Finite (- a))) = ch_minus # t @ ch_e # post"
    using replace_first_zeros_e [OF ne(2) post(2)] unfolding t(2)
    by (simp add: lay(2) post(1) del: replace_first.simps replace_at_end.simps matches.simps)
  note fin = small_number_finite [OF t(3) lay(3) lay(6)]
  show "evaluate (replace_first zeros_e_re [ch_e] (toExponential 10 (Finite a)))
           = Inl (UnexpectedCharacter ch_e)"
    unfolding r1 by (rule evaluate_run_e(1) [OF fin])
  show "evaluate (replace_first zeros_e_re [ch_e] (toExponential 10 (Finite (- a))))
           = Inl (UnexpectedCharacter ch_e)"
    unfolding r2 by (rule evaluate_run_e(2) [OF fin])
qed

lemma round_trip_exponent:
  assumes v: "isFinite v" and nz: "val v \<noteq> 0"
    and r: "\<not> (val lit_1e_6 \<le> \<bar>val v\<bar> \<and> \<bar>val v\<bar> < 10 ^ 12)"
  shows "evaluate (formatNumber v) = Inl (UnexpectedCharacter ch_e)"
proof -
  obtain q where q: "v = Finite q" "q \<noteq> 0" using v nz by (cases v) simp_all
  obtain l where l: "lit_1e_6 = Finite l" using lit_1e_6_val by blast
  have f: "formatNumber (Finite q) = replace_first zeros_e_re [ch_e] (toExponential 10 (Finite q))"
    using r q(2) by (auto simp: formatNumber_def q(1) l lit_1e12_val strict_eq_def js_ge_def js_lt_def Let_def
        simp del: replace_first.simps)
  show ?thesis
  proof (cases "0 < q")
    case True
    show ?thesis unfolding q(1) f by (rule exponent_rejected(1) [OF True])
  next
    case False
    then have "0 < - q" using q(2) by simp
    then show ?thesis
      using exponent_rejected(2) [of "- q"] unfolding q(1) f by (simp del: replace_first.simps)
  qed
qed

subsection \<open>The results of evaluate\<close>

lemma evaluate_finite:
  assumes ev: "evaluate input = Inr v"
  shows "isFinite v"
proof (cases "tokenize input")
  case (Inl e)
  then show ?thesis using ev by (simp add: evaluate_def)
next
  case (Inr tokens)
  show ?thesis
  proof (cases "tokens = []")
    case True
    then show ?thesis using ev Inr by (auto simp: evaluate_def)
  next
    case False
    then obtain rpn where r: "toRpn tokens = Inr rpn" and er: "evalRpn rpn = Inr v"
      using ev Inr by (auto simp: evaluate_def split: sum.splits)
    from er obtain st where st: "evalRpn_loop rpn [] = Inr st" and v: "st = [v]"
      by (auto simp: evalRpn_def split: sum.splits list.splits)
    have "list_all token_finite tokens"
      using Inr tokenize_loop_finite [of "strip_ws input" "[]" tokens] by (simp add: tokenize_def)
    then have "list_all token_finite rpn"
      using r toRpn_loop_finite [of None tokens "[]" "[]" rpn] by (simp add: toRpn_def)
    then have "list_all isFinite st"
      using evalRpn_loop_finite [OF st] by simp
    then show ?thesis by (simp add: v)
  qed
qed

lemma round64_five_halves:
  "round64 (5 / 2) = Finite (5 / 2)" "round64 (- (5 / 2)) = Finite (- (5 / 2))"
proof -
  have "(2::rat) powi (- 1) = 1 / 2" by (simp add: power_int_minus)
  then have rep: "\<bar>5 / 2 :: rat\<bar> = of_int 5 * 2 powi (- 1)" "\<bar>- (5 / 2) :: rat\<bar> = of_int 5 * 2 powi (- 1)"
    by simp_all
  have big: "\<bar>5 / 2 :: rat\<bar> < 2 powi 1024" "\<bar>- (5 / 2) :: rat\<bar> < 2 powi 1024"
  proof -
    have "(5 / 2 :: rat) < 2 powi 2" by simp
    also have "(2::rat) powi 2 < 2 powi 1024" by (simp only: two_powi_less_iff)
    finally show "\<bar>5 / 2 :: rat\<bar> < 2 powi 1024" "\<bar>- (5 / 2) :: rat\<bar> < 2 powi 1024" by simp_all
  qed
  show "round64 (5 / 2) = Finite (5 / 2)"
    by (rule round64_exact [OF _ rep(1) _ _ big(1)]) simp_all
  show "round64 (- (5 / 2)) = Finite (- (5 / 2))"
    by (rule round64_exact [OF _ rep(2) _ _ big(2)]) simp_all
qed

section \<open>The claims\<close>

text \<open>
  C2. \<^verbatim>\<open>evaluate\<close> resolves the precedence of the binary operators and their left
  associativity: \<^verbatim>\<open>2+3*4\<close> is 14, \<^verbatim>\<open>(2+3)*4\<close> is 20 and \<^verbatim>\<open>10-2-3\<close> is 5, not 11;
  \<^verbatim>\<open>2*3+4\<close> is 10, \<^verbatim>\<open>8/4/2\<close> is 1, \<^verbatim>\<open>8/4*2\<close> is 4, \<^verbatim>\<open>7-2+1\<close> is 6, \<^verbatim>\<open>2+6/2\<close> is 5
  and \<^verbatim>\<open>2*(3+4)\<close> is 14. For all binary operators \<open>o1\<close> and \<open>o2\<close>: \<^verbatim>\<open>pushOp\<close> with
  \<open>o2\<close> leaves \<open>o1\<close> on the stack when \<open>o1\<close> is \<^verbatim>\<open>+\<close> or \<^verbatim>\<open>-\<close> and \<open>o2\<close> is \<^verbatim>\<open>*\<close> or
  \<^verbatim>\<open>/\<close>, and pops it to the output in every other case; so \<^verbatim>\<open>a o1 b o2 c\<close> becomes
  \<^verbatim>\<open>a b c o2 o1\<close> in the first case and \<^verbatim>\<open>a b o1 c o2\<close> in the others, and parentheses
  decide the order whatever the operators. In general, the tokens of a sum of products
  of any length become its postfix sequence, whose evaluation is the value of the sum
  read from the left; so \<^verbatim>\<open>evaluate\<close> returns that value on an input with these tokens.
\<close>

theorem C2_precedence_and_associativity:
  "evaluate (js ''2+3*4'') = Inr (Finite 14)
   \<and> evaluate (js ''(2+3)*4'') = Inr (Finite 20)
   \<and> evaluate (js ''10-2-3'') = Inr (Finite 5)
   \<and> evaluate (js ''10-2-3'') \<noteq> Inr (Finite 11)
   \<and> toRpn [Num a, Op Plus, Num b, Op Times, Num c] = Inr [Num a, Num b, Num c, Op Times, Op Plus]
   \<and> toRpn [Num a, Op Minus, Num b, Op Minus, Num c] = Inr [Num a, Num b, Op Minus, Num c, Op Minus]
   \<and> evaluate (js ''2*3+4'') = Inr (Finite 10)
   \<and> evaluate (js ''8/4/2'') = Inr (Finite 1)
   \<and> evaluate (js ''8/4*2'') = Inr (Finite 4)
   \<and> evaluate (js ''7-2+1'') = Inr (Finite 6)
   \<and> evaluate (js ''2+6/2'') = Inr (Finite 5)
   \<and> evaluate (js ''2*(3+4)'') = Inr (Finite 14)
   \<and> ((o1 = Plus \<or> o1 = Minus \<or> o1 = Times \<or> o1 = Divide)
        \<and> (o2 = Plus \<or> o2 = Minus \<or> o2 = Times \<or> o2 = Divide) \<longrightarrow>
        pushOp o2 (out, Op o1 # ops) =
          (if (o1 = Plus \<or> o1 = Minus) \<and> (o2 = Times \<or> o2 = Divide)
           then (out, Op o2 # Op o1 # ops)
           else pushOp o2 (out @ [Op o1], ops))
        \<and> toRpn [Num a, Op o1, Num b, Op o2, Num c] =
            Inr (if (o1 = Plus \<or> o1 = Minus) \<and> (o2 = Times \<or> o2 = Divide)
                 then [Num a, Num b, Num c, Op o2, Op o1]
                 else [Num a, Num b, Op o1, Num c, Op o2])
        \<and> toRpn [LParen, Num a, Op o1, Num b, RParen, Op o2, Num c]
            = Inr [Num a, Num b, Op o1, Num c, Op o2]
        \<and> toRpn [Num a, Op o1, LParen, Num b, Op o2, Num c, RParen]
            = Inr [Num a, Num b, Num c, Op o2, Op o1]
        \<and> evalRpn [Num a, Num b, Op o1, Num c, Op o2] =
            (case apply_binary o1 a b of Inl e \<Rightarrow> Inl e | Inr r \<Rightarrow> apply_binary o2 r c)
        \<and> evalRpn [Num a, Num b, Num c, Op o2, Op o1] =
            (case apply_binary o2 b c of Inl e \<Rightarrow> Inl e | Inr r \<Rightarrow> apply_binary o1 a r))
   \<and> (sum_ok s \<longrightarrow>
        toRpn (sum_infix s) = Inr (sum_postfix s) \<and> evalRpn (sum_postfix s) = sum_value s)
   \<and> (sum_ok s \<and> tokenize input = Inr (sum_infix s) \<longrightarrow> evaluate input = sum_value s)"
proof -
  have strings: "evaluate (js ''2+3*4'') = Inr (Finite 14)"
    "evaluate (js ''(2+3)*4'') = Inr (Finite 20)"
    "evaluate (js ''10-2-3'') = Inr (Finite 5)"
    "evaluate (js ''10-2-3'') \<noteq> Inr (Finite 11)"
    "evaluate (js ''2*3+4'') = Inr (Finite 10)"
    "evaluate (js ''8/4/2'') = Inr (Finite 1)"
    "evaluate (js ''8/4*2'') = Inr (Finite 4)"
    "evaluate (js ''7-2+1'') = Inr (Finite 6)"
    "evaluate (js ''2+6/2'') = Inr (Finite 5)"
    "evaluate (js ''2*(3+4)'') = Inr (Finite 14)"
    by (simp_all add: calc_defs)
  have shapes: "toRpn [Num a, Op Plus, Num b, Op Times, Num c]
                  = Inr [Num a, Num b, Num c, Op Times, Op Plus]"
    "toRpn [Num a, Op Minus, Num b, Op Minus, Num c]
       = Inr [Num a, Num b, Op Minus, Num c, Op Minus]"
    by (simp_all add: toRpn_def unary_position_def)
  have pairs: "pushOp o2 (out, Op o1 # ops) =
          (if (o1 = Plus \<or> o1 = Minus) \<and> (o2 = Times \<or> o2 = Divide)
           then (out, Op o2 # Op o1 # ops)
           else pushOp o2 (out @ [Op o1], ops))
        \<and> toRpn [Num a, Op o1, Num b, Op o2, Num c] =
            Inr (if (o1 = Plus \<or> o1 = Minus) \<and> (o2 = Times \<or> o2 = Divide)
                 then [Num a, Num b, Num c, Op o2, Op o1]
                 else [Num a, Num b, Op o1, Num c, Op o2])
        \<and> toRpn [LParen, Num a, Op o1, Num b, RParen, Op o2, Num c]
            = Inr [Num a, Num b, Op o1, Num c, Op o2]
        \<and> toRpn [Num a, Op o1, LParen, Num b, Op o2, Num c, RParen]
            = Inr [Num a, Num b, Num c, Op o2, Op o1]
        \<and> evalRpn [Num a, Num b, Op o1, Num c, Op o2] =
            (case apply_binary o1 a b of Inl e \<Rightarrow> Inl e | Inr r \<Rightarrow> apply_binary o2 r c)
        \<and> evalRpn [Num a, Num b, Num c, Op o2, Op o1] =
            (case apply_binary o2 b c of Inl e \<Rightarrow> Inl e | Inr r \<Rightarrow> apply_binary o1 a r)"
    if o1: "o1 = Plus \<or> o1 = Minus \<or> o1 = Times \<or> o1 = Divide"
      and o2: "o2 = Plus \<or> o2 = Minus \<or> o2 = Times \<or> o2 = Divide"
  proof (intro conjI)
    show "pushOp o2 (out, Op o1 # ops) =
          (if (o1 = Plus \<or> o1 = Minus) \<and> (o2 = Times \<or> o2 = Divide)
           then (out, Op o2 # Op o1 # ops)
           else pushOp o2 (out @ [Op o1], ops))"
      using o1 o2 by auto
    show "toRpn [Num a, Op o1, Num b, Op o2, Num c] =
            Inr (if (o1 = Plus \<or> o1 = Minus) \<and> (o2 = Times \<or> o2 = Divide)
                 then [Num a, Num b, Num c, Op o2, Op o1]
                 else [Num a, Num b, Op o1, Num c, Op o2])"
      using o1 o2 by (auto simp: toRpn_def unary_position_def)
    show "toRpn [LParen, Num a, Op o1, Num b, RParen, Op o2, Num c]
            = Inr [Num a, Num b, Op o1, Num c, Op o2]"
      using o1 o2 by (auto simp: toRpn_def unary_position_def)
    show "toRpn [Num a, Op o1, LParen, Num b, Op o2, Num c, RParen]
            = Inr [Num a, Num b, Num c, Op o2, Op o1]"
      using o1 o2 by (auto simp: toRpn_def unary_position_def)
    show "evalRpn [Num a, Num b, Op o1, Num c, Op o2] =
            (case apply_binary o1 a b of Inl e \<Rightarrow> Inl e | Inr r \<Rightarrow> apply_binary o2 r c)"
      using o1 o2 by (auto simp: evalRpn_def apply_binary_def split: sum.splits)
    show "evalRpn [Num a, Num b, Num c, Op o2, Op o1] =
            (case apply_binary o2 b c of Inl e \<Rightarrow> Inl e | Inr r \<Rightarrow> apply_binary o1 a r)"
      using o1 o2 by (auto simp: evalRpn_def apply_binary_def split: sum.splits)
  qed
  have sums: "toRpn (sum_infix s) = Inr (sum_postfix s) \<and> evalRpn (sum_postfix s) = sum_value s"
    if "sum_ok s"
    using that by (simp add: toRpn_sum evalRpn_sum)
  have inputs: "evaluate input = sum_value s" if "sum_ok s" "tokenize input = Inr (sum_infix s)"
    using that by (simp add: evaluate_sum)
  show ?thesis
    using strings shapes pairs sums inputs by blast
qed

theorem C2_precedence_and_associativity_witness:
  "pushOp Plus ([Num (Finite 2), Num (Finite 3)], [Op Times])
     = ([Num (Finite 2), Num (Finite 3), Op Times], [Op Plus])
   \<and> toRpn [Num (Finite 2), Op Times, Num (Finite 3), Op Plus, Num (Finite 4)]
       = Inr [Num (Finite 2), Num (Finite 3), Op Times, Num (Finite 4), Op Plus]
   \<and> toRpn [LParen, Num (Finite 2), Op Times, Num (Finite 3), RParen, Op Plus, Num (Finite 4)]
       = Inr [Num (Finite 2), Num (Finite 3), Op Times, Num (Finite 4), Op Plus]
   \<and> toRpn [Num (Finite 2), Op Times, LParen, Num (Finite 3), Op Plus, Num (Finite 4), RParen]
       = Inr [Num (Finite 2), Num (Finite 3), Num (Finite 4), Op Plus, Op Times]
   \<and> evalRpn [Num (Finite 2), Num (Finite 3), Op Times, Num (Finite 4), Op Plus] = Inr (Finite 10)
   \<and> evalRpn [Num (Finite 2), Num (Finite 3), Num (Finite 4), Op Plus, Op Times] = Inr (Finite 14)
   \<and> sum_ok ((Finite 1, []), [(Plus, (Finite 2, [(Times, Finite 6), (Divide, Finite 3)])),
                               (Minus, (Finite 4, []))])
   \<and> tokenize (js ''1+2*6/3-4'')
       = Inr [Num (Finite 1), Op Plus, Num (Finite 2), Op Times, Num (Finite 6), Op Divide,
              Num (Finite 3), Op Minus, Num (Finite 4)]
   \<and> toRpn [Num (Finite 1), Op Plus, Num (Finite 2), Op Times, Num (Finite 6), Op Divide,
            Num (Finite 3), Op Minus, Num (Finite 4)]
       = Inr [Num (Finite 1), Num (Finite 2), Num (Finite 6), Op Times, Num (Finite 3), Op Divide,
              Op Plus, Num (Finite 4), Op Minus]
   \<and> evalRpn [Num (Finite 1), Num (Finite 2), Num (Finite 6), Op Times, Num (Finite 3), Op Divide,
              Op Plus, Num (Finite 4), Op Minus] = Inr (Finite 1)
   \<and> evaluate (js ''1+2*6/3-4'') = Inr (Finite 1)"
proof -
  note inst = C2_precedence_and_associativity [where ?o1.0 = Times and ?o2.0 = Plus
      and a = "Finite 2" and b = "Finite 3" and c = "Finite 4"
      and out = "[Num (Finite 2), Num (Finite 3)]" and ops = "[]"
      and s = "((Finite 1, []), [(Plus, (Finite 2, [(Times, Finite 6), (Divide, Finite 3)])),
                                 (Minus, (Finite 4, []))])"
      and input = "js ''1+2*6/3-4''"]
  have ok: "sum_ok ((Finite 1, []), [(Plus, (Finite 2, [(Times, Finite 6), (Divide, Finite 3)])),
                                     (Minus, (Finite 4, []))])"
    by (simp add: sum_ok_def product_ok_def is_additive_def is_multiplicative_def)
  have tok: "tokenize (js ''1+2*6/3-4'')
       = Inr (sum_infix ((Finite 1, []), [(Plus, (Finite 2, [(Times, Finite 6), (Divide, Finite 3)])),
                                          (Minus, (Finite 4, []))]))"
    by (simp add: calc_defs)
  have val: "sum_value ((Finite 1, []), [(Plus, (Finite 2, [(Times, Finite 6), (Divide, Finite 3)])),
                                         (Minus, (Finite 4, []))]) = Inr (Finite 1)"
    by (simp add: apply_binary_def arith_defs)
  have a1: "apply_binary Times (Finite 2) (Finite 3) = Inr (Finite 6)"
    and a2: "apply_binary Plus (Finite 6) (Finite 4) = Inr (Finite 10)"
    and a3: "apply_binary Plus (Finite 3) (Finite 4) = Inr (Finite 7)"
    and a4: "apply_binary Times (Finite 2) (Finite 7) = Inr (Finite 14)"
    by (simp_all add: apply_binary_def arith_defs)
  show ?thesis
    using inst ok tok val by (simp add: a1 a2 a3 a4 del: toRpn_loop.simps evalRpn_loop.simps)
qed

text \<open>
  C5. At a binary \<^verbatim>\<open>/\<close> whose right operand (the top of the stack) is zero, the
  evaluation fails with DivisionByZero, whatever follows: no quotient is pushed. In
  particular \<^verbatim>\<open>5/0\<close> fails with DivisionByZero.
\<close>

theorem C5_division_by_zero:
  "(is_zero b \<and> evalRpn_loop pre [] = Inr (b # a # st)
      \<longrightarrow> evalRpn_loop (pre @ [Op Divide]) [] = Inl DivisionByZero
        \<and> evalRpn (pre @ Op Divide # post) = Inl DivisionByZero)
   \<and> evaluate (js ''5/0'') = Inl DivisionByZero"
proof -
  have z: "is_zero b \<Longrightarrow> strict_eq b (Finite 0)"
    by (cases b) (simp_all add: strict_eq_def)
  have "evaluate (js ''5/0'') = Inl DivisionByZero"
    by (simp add: calc_defs)
  then show ?thesis
    using z by (simp add: evalRpn_def evalRpn_loop_append)
qed

theorem C5_division_by_zero_witness:
  "is_zero (Finite 0) \<and> evalRpn_loop [Num (Finite 5), Num (Finite 0)] [] = Inr [Finite 0, Finite 5]
   \<and> evalRpn_loop ([Num (Finite 5), Num (Finite 0)] @ [Op Divide]) [] = Inl DivisionByZero
   \<and> evalRpn ([Num (Finite 5), Num (Finite 0)] @ Op Divide # [Num (Finite 1), Op Plus])
       = Inl DivisionByZero"
  using C5_division_by_zero [of "Finite 0" "[Num (Finite 5), Num (Finite 0)]" "Finite 5" "[]"
      "[Num (Finite 1), Op Plus]"]
  by simp

text \<open>
  C7. On an input of white space only (the empty string too) \<^verbatim>\<open>evaluate\<close> returns 0:
  the tokenizer deletes the white space and returns no token, and \<^verbatim>\<open>evaluate\<close> maps
  the empty token sequence to 0.
\<close>

theorem C7_whitespace_only:
  "(\<forall>c \<in> set input. is_space c) \<longrightarrow> tokenize input = Inr [] \<and> evaluate input = Inr (Finite 0)"
proof
  assume "\<forall>c \<in> set input. is_space c"
  then have "strip_ws input = []"
    by (simp add: strip_ws_def)
  then show "tokenize input = Inr [] \<and> evaluate input = Inr (Finite 0)"
    by (simp add: tokenize_def evaluate_def)
qed

theorem C7_whitespace_only_witness:
  "list_all is_space (js ''   '') \<and> evaluate (js ''   '') = Inr (Finite 0)
   \<and> evaluate (js []) = Inr (Finite 0)"
  using C7_whitespace_only [of "js ''   ''"] C7_whitespace_only [of "js []"]
  by (simp add: js_def is_space_def)

text \<open>
  C9. The guard of the division fires on the negative zero too: \<^verbatim>\<open>b === 0\<close> holds for
  \<open>-0\<close>, so a \<^verbatim>\<open>/\<close> whose right operand is \<open>-0\<close> fails with DivisionByZero, and
  \<^verbatim>\<open>5/-0\<close> does (its divisor is the negative zero that the unary minus makes of 0).
\<close>

theorem C9_negative_zero_divisor:
  "strict_eq NegZero (Finite 0)
   \<and> binop Divide a NegZero = Inl DivisionByZero
   \<and> evalRpn_loop (Op Divide # post) (NegZero # a # st) = Inl DivisionByZero
   \<and> tokenize (js ''5/-0'') = Inr [Num (Finite 5), Op Divide, Op Minus, Num (Finite 0)]
   \<and> toRpn [Num (Finite 5), Op Divide, Op Minus, Num (Finite 0)]
       = Inr [Num (Finite 5), Num (Finite 0), Op UMinus, Op Divide]
   \<and> evalRpn_loop [Num (Finite 5), Num (Finite 0), Op UMinus] [] = Inr [NegZero, Finite 5]
   \<and> evaluate (js ''5/-0'') = Inl DivisionByZero"
  by (simp add: calc_defs)

text \<open>
  C10. The input \<^verbatim>\<open>()\<close> fails with InvalidExpression, not MismatchedParentheses: the
  converter accepts the pair and returns the empty postfix sequence, on which the
  evaluator's last check (one value on the stack) fails.
\<close>

theorem C10_empty_parentheses:
  "tokenize (js ''()'') = Inr [LParen, RParen]
   \<and> toRpn [LParen, RParen] = Inr []
   \<and> evalRpn [] = Inl InvalidExpression
   \<and> evaluate (js ''()'') = Inl InvalidExpression
   \<and> evaluate (js ''()'') \<noteq> Inl MismatchedParentheses"
  by (simp add: calc_defs)

text \<open>
  C6. The converter fails with MismatchedParentheses in both unbalanced cases: at a
  \<^verbatim>\<open>)\<close> when the stack holds no \<^verbatim>\<open>(\<close>, and at the end of the input when the stack
  still holds a \<^verbatim>\<open>(\<close>. It fails exactly on the token sequences whose parentheses are
  not balanced. \<^verbatim>\<open>(1+2\<close> and \<^verbatim>\<open>1+2)\<close> both fail with MismatchedParentheses.
\<close>

theorem C6_mismatched_parentheses:
  "(LParen \<notin> set ops \<longrightarrow> toRpn_loop prev (RParen # ts) (out, ops) = Inl MismatchedParentheses)
   \<and> (LParen \<in> set ops \<longrightarrow> toRpn_loop prev [] (out, ops) = Inl MismatchedParentheses)
   \<and> (toRpn tokens = Inl MismatchedParentheses \<longleftrightarrow> \<not> parens_balanced 0 tokens)
   \<and> evaluate (js ''(1+2'') = Inl MismatchedParentheses
   \<and> evaluate (js ''1+2)'') = Inl MismatchedParentheses"
proof -
  have "evaluate (js ''(1+2'') = Inl MismatchedParentheses"
    by (simp add: calc_defs)
  moreover have "evaluate (js ''1+2)'') = Inl MismatchedParentheses"
    by (simp add: calc_defs)
  ultimately show ?thesis
    by (simp add: closeParen_none drain_open toRpn_fails_iff)
qed

theorem C6_mismatched_parentheses_witness:
  "LParen \<notin> set [Op Plus]
   \<and> toRpn_loop (Some (Num (Finite 2))) [RParen] ([Num (Finite 1), Num (Finite 2)], [Op Plus])
       = Inl MismatchedParentheses
   \<and> LParen \<in> set [Op Plus, LParen]
   \<and> toRpn_loop (Some (Num (Finite 2))) [] ([Num (Finite 1), Num (Finite 2)], [Op Plus, LParen])
       = Inl MismatchedParentheses
   \<and> \<not> parens_balanced 0 [LParen, Num (Finite 1), RParen, RParen]
   \<and> toRpn [LParen, Num (Finite 1), RParen, RParen] = Inl MismatchedParentheses"
  using C6_mismatched_parentheses [of "[Op Plus]" "Some (Num (Finite 2))" "[]"
      "[Num (Finite 1), Num (Finite 2)]" "[LParen, Num (Finite 1), RParen, RParen]"]
    C6_mismatched_parentheses [of "[Op Plus, LParen]" "Some (Num (Finite 2))" "[]"
      "[Num (Finite 1), Num (Finite 2)]" "[]"]
  by simp

text \<open>
  C3. The converter makes a \<^verbatim>\<open>+\<close> or \<^verbatim>\<open>-\<close> token unary exactly when it is the first
  token or the token before it is an operator or \<^verbatim>\<open>(\<close>, and leaves every other token
  as it is: \<^verbatim>\<open>toRpn\<close> is the shunting-yard conversion of the tokens so classified. A
  unary operator has a higher precedence than every binary operator and is right
  associative: pushing it pops nothing, a binary operator that is pushed pops it to the
  output, and the evaluator applies it to the top of the stack. So a number under signs
  becomes the number followed by the signs in reverse, and a binary operator takes such
  a signed number whole, as its left operand and as its right one. \<^verbatim>\<open>-(3+4)\<close> is -7,
  \<^verbatim>\<open>3*-2\<close> is -6 and \<^verbatim>\<open>--5\<close> is 5; \<^verbatim>\<open>-2+3\<close> is 1, \<^verbatim>\<open>-2-3\<close> is -5, \<^verbatim>\<open>2--3\<close> is 5,
  \<^verbatim>\<open>-2*-3\<close> is 6 and \<^verbatim>\<open>+-5\<close> is -5; \<^verbatim>\<open>2**3\<close> fails, since \<^verbatim>\<open>*\<close> is never unary.
\<close>

theorem C3_unary_operators:
  "toRpn ts = shunting_yard (disambiguate ts)
   \<and> (i < length ts \<and> (ts ! i = Op Plus \<or> ts ! i = Op Minus) \<longrightarrow>
        (disambiguate ts ! i = (if ts ! i = Op Plus then Op UPlus else Op UMinus)
           \<longleftrightarrow> i = 0 \<or> is_op (ts ! (i - 1)) \<or> ts ! (i - 1) = LParen)
        \<and> (disambiguate ts ! i = ts ! i
           \<longleftrightarrow> \<not> (i = 0 \<or> is_op (ts ! (i - 1)) \<or> ts ! (i - 1) = LParen)))
   \<and> (j < length ts \<and> ts ! j \<noteq> Op Plus \<and> ts ! j \<noteq> Op Minus \<longrightarrow> disambiguate ts ! j = ts ! j)
   \<and> ((u = UPlus \<or> u = UMinus) \<and> (b = Plus \<or> b = Minus \<or> b = Times \<or> b = Divide) \<longrightarrow>
        prec b < prec u \<and> rightAssoc u \<and> \<not> rightAssoc b
        \<and> pushOp u (out, ops) = (out, Op u # ops)
        \<and> pushOp b (out, Op u # ops) = pushOp b (out @ [Op u], ops)
        \<and> evalRpn_loop (Op u # rest) (x # st)
            = evalRpn_loop rest ((if u = UMinus then js_neg x else js_pos x) # st))
   \<and> (list_all is_sign ss \<and> (b = Plus \<or> b = Minus \<or> b = Times \<or> b = Divide) \<longrightarrow>
        toRpn (map Op ss @ [Num a]) = Inr (Num a # signs_postfix ss)
        \<and> toRpn (map Op ss @ [Num a, Op b, Num c]) = Inr (Num a # signs_postfix ss @ [Num c, Op b])
        \<and> toRpn ([Num a, Op b] @ map Op ss @ [Num c])
            = Inr ([Num a, Num c] @ signs_postfix ss @ [Op b]))
   \<and> evaluate (js ''-(3+4)'') = Inr (Finite (- 7))
   \<and> evaluate (js ''3*-2'') = Inr (Finite (- 6))
   \<and> evaluate (js ''--5'') = Inr (Finite 5)
   \<and> evaluate (js ''-2+3'') = Inr (Finite 1)
   \<and> evaluate (js ''-2-3'') = Inr (Finite (- 5))
   \<and> evaluate (js ''2--3'') = Inr (Finite 5)
   \<and> evaluate (js ''-2*-3'') = Inr (Finite 6)
   \<and> evaluate (js ''+-5'') = Inr (Finite (- 5))
   \<and> evaluate (js ''2**3'') = Inl InvalidExpression"
proof -
  have cls: "i < length ts \<and> (ts ! i = Op Plus \<or> ts ! i = Op Minus) \<longrightarrow>
        (disambiguate ts ! i = (if ts ! i = Op Plus then Op UPlus else Op UMinus)
           \<longleftrightarrow> i = 0 \<or> is_op (ts ! (i - 1)) \<or> ts ! (i - 1) = LParen)
        \<and> (disambiguate ts ! i = ts ! i
           \<longleftrightarrow> \<not> (i = 0 \<or> is_op (ts ! (i - 1)) \<or> ts ! (i - 1) = LParen))"
    by (auto simp: disambiguate_def disambiguate_at_def is_unary_at_def)
  have other: "j < length ts \<and> ts ! j \<noteq> Op Plus \<and> ts ! j \<noteq> Op Minus \<longrightarrow> disambiguate ts ! j = ts ! j"
    by (simp add: disambiguate_def disambiguate_at_def)
  have ops: "prec b < prec u \<and> rightAssoc u \<and> \<not> rightAssoc b
        \<and> pushOp u (out, ops) = (out, Op u # ops)
        \<and> pushOp b (out, Op u # ops) = pushOp b (out @ [Op u], ops)
        \<and> evalRpn_loop (Op u # rest) (x # st)
            = evalRpn_loop rest ((if u = UMinus then js_neg x else js_pos x) # st)"
    if "u = UPlus \<or> u = UMinus" "b = Plus \<or> b = Minus \<or> b = Times \<or> b = Divide"
    using that pushOp_unary [of u out ops] by auto
  have signs: "toRpn (map Op ss @ [Num a]) = Inr (Num a # signs_postfix ss)
        \<and> toRpn (map Op ss @ [Num a, Op b, Num c]) = Inr (Num a # signs_postfix ss @ [Num c, Op b])
        \<and> toRpn ([Num a, Op b] @ map Op ss @ [Num c])
            = Inr ([Num a, Num c] @ signs_postfix ss @ [Op b])"
    if ss: "list_all is_sign ss" and b: "b = Plus \<or> b = Minus \<or> b = Times \<or> b = Divide"
  proof -
    have "is_additive b \<or> is_multiplicative b"
      using b by (auto simp: is_additive_def is_multiplicative_def)
    then show ?thesis
      using toRpn_signed [OF ss] toRpn_signed_left [OF ss] toRpn_signed_right [OF ss] by blast
  qed
  have strings: "evaluate (js ''-(3+4)'') = Inr (Finite (- 7))"
    "evaluate (js ''3*-2'') = Inr (Finite (- 6))"
    "evaluate (js ''--5'') = Inr (Finite 5)"
    "evaluate (js ''-2+3'') = Inr (Finite 1)"
    "evaluate (js ''-2-3'') = Inr (Finite (- 5))"
    "evaluate (js ''2--3'') = Inr (Finite 5)"
    "evaluate (js ''-2*-3'') = Inr (Finite 6)"
    "evaluate (js ''+-5'') = Inr (Finite (- 5))"
    "evaluate (js ''2**3'') = Inl InvalidExpression"
    by (simp_all add: calc_defs)
  show ?thesis
    using toRpn_shunting_yard [of ts] cls other ops signs strings by blast
qed

theorem C3_unary_operators_witness:
  "toRpn [Op Minus, Num (Finite 2), Op Times, Op Minus, Op Plus, Num (Finite 3)]
     = shunting_yard [Op UMinus, Num (Finite 2), Op Times, Op UMinus, Op UPlus, Num (Finite 3)]
   \<and> disambiguate [Op Minus, Num (Finite 2), Op Times, Op Minus, Op Plus, Num (Finite 3)]
     = [Op UMinus, Num (Finite 2), Op Times, Op UMinus, Op UPlus, Num (Finite 3)]
   \<and> toRpn [Op Minus, Num (Finite 2), Op Times, Op Minus, Op Plus, Num (Finite 3)]
     = Inr [Num (Finite 2), Op UMinus, Num (Finite 3), Op UPlus, Op UMinus, Op Times]
   \<and> prec Times < prec UMinus \<and> rightAssoc UMinus \<and> \<not> rightAssoc Times
   \<and> pushOp UMinus ([Num (Finite 2)], [Op Times]) = ([Num (Finite 2)], [Op UMinus, Op Times])
   \<and> pushOp Times ([Num (Finite 2)], [Op UMinus]) = ([Num (Finite 2), Op UMinus], [Op Times])
   \<and> evalRpn_loop [Op UMinus] [Finite 2] = Inr [Finite (- 2)]
   \<and> list_all is_sign [Minus, Plus]
   \<and> toRpn [Op Minus, Op Plus, Num (Finite 2)] = Inr [Num (Finite 2), Op UPlus, Op UMinus]
   \<and> toRpn [Op Minus, Op Plus, Num (Finite 2), Op Times, Num (Finite 3)]
       = Inr [Num (Finite 2), Op UPlus, Op UMinus, Num (Finite 3), Op Times]
   \<and> toRpn [Num (Finite 2), Op Times, Op Minus, Op Plus, Num (Finite 3)]
       = Inr [Num (Finite 2), Num (Finite 3), Op UPlus, Op UMinus, Op Times]"
proof -
  note inst = C3_unary_operators [where
      ts = "[Op Minus, Num (Finite 2), Op Times, Op Minus, Op Plus, Num (Finite 3)]"
      and i = 3 and j = 2 and u = UMinus and b = Times and out = "[Num (Finite 2)]"
      and ops = "[]" and rest = "[]" and x = "Finite 2" and st = "[]"
      and ss = "[Minus, Plus]" and a = "Finite 2" and c = "Finite 3"]
  have d: "disambiguate [Op Minus, Num (Finite 2), Op Times, Op Minus, Op Plus, Num (Finite 3)]
             = [Op UMinus, Num (Finite 2), Op Times, Op UMinus, Op UPlus, Num (Finite 3)]"
    by (simp add: disambiguate_def disambiguate_at_def is_unary_at_def upt_rec)
  have s: "list_all is_sign [Minus, Plus]" "is_sign Minus" "is_sign Plus"
    by (simp_all add: is_sign_def)
  have p: "unary_of Plus = UPlus" "unary_of Minus = UMinus"
    by (simp_all add: unary_of_def)
  have y: "shunting_yard [Op UMinus, Num (Finite 2), Op Times, Op UMinus, Op UPlus, Num (Finite 3)]
             = Inr [Num (Finite 2), Op UMinus, Num (Finite 3), Op UPlus, Op UMinus, Op Times]"
    by (simp add: shunting_yard_def)
  have u: "pushOp UMinus ([Num (Finite 2)], [Op Times]) = ([Num (Finite 2)], [Op UMinus, Op Times])"
    by simp
  have "pushOp Times ([Num (Finite 2)], [Op UMinus]) = pushOp Times ([Num (Finite 2)] @ [Op UMinus], [])"
    using inst by blast
  then have q: "pushOp Times ([Num (Finite 2)], [Op UMinus]) = ([Num (Finite 2), Op UMinus], [Op Times])"
    by simp
  have n: "evalRpn_loop [Op UMinus] [Finite 2] = Inr [Finite (- 2)]"
    by simp
  have t: "toRpn [Op Minus, Num (Finite 2), Op Times, Op Minus, Op Plus, Num (Finite 3)]
             = shunting_yard (disambiguate [Op Minus, Num (Finite 2), Op Times, Op Minus, Op Plus, Num (Finite 3)])"
    using inst by blast
  have g: "toRpn (map Op [Minus, Plus] @ [Num (Finite 2)]) = Inr (Num (Finite 2) # signs_postfix [Minus, Plus])
        \<and> toRpn (map Op [Minus, Plus] @ [Num (Finite 2), Op Times, Num (Finite 3)])
            = Inr (Num (Finite 2) # signs_postfix [Minus, Plus] @ [Num (Finite 3), Op Times])
        \<and> toRpn ([Num (Finite 2), Op Times] @ map Op [Minus, Plus] @ [Num (Finite 3)])
            = Inr ([Num (Finite 2), Num (Finite 3)] @ signs_postfix [Minus, Plus] @ [Op Times])"
    using inst s(1) by blast
  show ?thesis
    using t g by (simp add: d y u q n s p del: pushOp.simps toRpn_loop.simps evalRpn_loop.simps)
qed

text \<open>
  C1, as amended. The run that the tokenizer scans at a digit or point \<open>ch\<close> is \<open>ch\<close>
  with the longest prefix of digits and points of what follows. The pattern accepts the
  run exactly when it has at most one point and ends in a digit (then it has a digit).
  Such a run becomes one Number token when its value is finite, and fails with
  NumberTooLarge when it is not; every other run fails with InvalidNumber.
\<close>

theorem C1_number_runs:
  "is_num_char ch \<and> run = ch # takeWhile is_num_char rest \<longrightarrow>
     (matches number_re run \<longleftrightarrow> count_list run ch_dot \<le> 1 \<and> is_digit (last run))
     \<and> (matches number_re run \<longrightarrow> list_ex is_digit run)
     \<and> (matches number_re run \<and> isFinite (Number run) \<longrightarrow>
          tokenize_loop (ch # rest) acc
            = tokenize_loop (dropWhile is_num_char rest) (acc @ [Num (Number run)]))
     \<and> (matches number_re run \<and> \<not> isFinite (Number run) \<longrightarrow>
          tokenize_loop (ch # rest) acc = Inl NumberTooLarge)
     \<and> (\<not> matches number_re run \<longrightarrow> tokenize_loop (ch # rest) acc = Inl InvalidNumber)"
proof
  assume a: "is_num_char ch \<and> run = ch # takeWhile is_num_char rest"
  then have num: "list_all is_num_char run"
    by (auto simp: list_all_iff dest: set_takeWhileD)
  have run: "run \<noteq> []" using a by simp
  have m: "matches number_re run \<longleftrightarrow> count_list run ch_dot \<le> 1 \<and> is_digit (last run)"
    using matches_number_re [OF num] run by (simp add: well_formed_run_def)
  have d: "list_ex is_digit run" if "matches number_re run"
    using that run unfolding m list_ex_iff by (metis last_in_set)
  show "(matches number_re run \<longleftrightarrow> count_list run ch_dot \<le> 1 \<and> is_digit (last run))
     \<and> (matches number_re run \<longrightarrow> list_ex is_digit run)
     \<and> (matches number_re run \<and> isFinite (Number run) \<longrightarrow>
          tokenize_loop (ch # rest) acc
            = tokenize_loop (dropWhile is_num_char rest) (acc @ [Num (Number run)]))
     \<and> (matches number_re run \<and> \<not> isFinite (Number run) \<longrightarrow>
          tokenize_loop (ch # rest) acc = Inl NumberTooLarge)
     \<and> (\<not> matches number_re run \<longrightarrow> tokenize_loop (ch # rest) acc = Inl InvalidNumber)"
    using m d a by (simp add: Let_def)
qed

theorem C1_number_runs_witness:
  "is_num_char 49
   \<and> js ''1.5'' = 49 # takeWhile is_num_char (js ''.5+2'')
   \<and> matches number_re (js ''1.5'')
   \<and> count_list (js ''1.5'') ch_dot \<le> 1 \<and> is_digit (last (js ''1.5''))
   \<and> list_ex is_digit (js ''1.5'')
   \<and> isFinite (Number (js ''1.5''))
   \<and> tokenize_loop (49 # js ''.5+2'') []
       = tokenize_loop (dropWhile is_num_char (js ''.5+2'')) ([] @ [Num (Number (js ''1.5''))])
   \<and> Number (js ''1.5'') = Finite (3 / 2)
   \<and> js ''1.'' = 49 # takeWhile is_num_char (js ''.+2'')
   \<and> \<not> matches number_re (js ''1.'')
   \<and> tokenize_loop (49 # js ''.+2'') [] = Inl InvalidNumber
   \<and> is_num_char 50
   \<and> 50 # replicate 308 48 = 50 # takeWhile is_num_char (replicate 308 48 @ js ''+2'')
   \<and> matches number_re (50 # replicate 308 48)
   \<and> \<not> isFinite (Number (50 # replicate 308 48))
   \<and> tokenize_loop (50 # replicate 308 48 @ js ''+2'') [] = Inl NumberTooLarge"
proof -
  have r: "round64 (3 / 2) = Finite (3 / 2)"
    by (rule round64_exact [where m = 3 and k = "- 1"]) simp_all
  have n: "Number (js ''1.5'') = Finite (3 / 2)"
    by (simp add: js_def char_defs number_defs is_digit_def r)
  have fin: "isFinite (Number (js ''1.5''))"
    unfolding n by simp
  have t1: "js ''1.5'' = 49 # takeWhile is_num_char (js ''.5+2'')"
    and t2: "js ''1.'' = 49 # takeWhile is_num_char (js ''.+2'')"
    by (simp_all add: js_def is_num_char_def is_digit_def ch_dot_def)
  have t3: "50 # replicate 308 48 = 50 # takeWhile is_num_char (replicate 308 48 @ js ''+2'')"
    using takeWhile_zeros [of 43 308 "[50]"]
    by (simp add: js_def is_num_char_def is_digit_def ch_dot_def)
  have i: "is_num_char 49" "is_num_char 50"
    by (simp_all add: is_num_char_def is_digit_def)
  have m1: "matches number_re (js ''1.5'')" and m2: "\<not> matches number_re (js ''1.'')"
    by (simp_all add: js_def number_re_def Opt_def Plus1_def is_digit_def ch_dot_def)
  have inf: "\<not> isFinite (Number (50 # replicate 308 48))"
    unfolding huge_literal(2) by simp
  note a = C1_number_runs [of 49 "js ''1.5''" "js ''.5+2''" "[]"]
  note b = C1_number_runs [of 49 "js ''1.''" "js ''.+2''" "[]"]
  note c = C1_number_runs [of 50 "50 # replicate 308 48" "replicate 308 48 @ js ''+2''" "[]"]
  have a1: "count_list (js ''1.5'') ch_dot \<le> 1 \<and> is_digit (last (js ''1.5''))"
    using a i(1) t1 m1 by blast
  have a2: "list_ex is_digit (js ''1.5'')"
    using a i(1) t1 m1 by blast
  have a3: "tokenize_loop (49 # js ''.5+2'') []
       = tokenize_loop (dropWhile is_num_char (js ''.5+2'')) ([] @ [Num (Number (js ''1.5''))])"
    using a i(1) t1 m1 fin by blast
  have b1: "tokenize_loop (49 # js ''.+2'') [] = Inl InvalidNumber"
    using b i(1) t2 m2 by blast
  have c1: "tokenize_loop (50 # replicate 308 48 @ js ''+2'') [] = Inl NumberTooLarge"
    using c i(2) t3 huge_literal(1) inf by blast
  show ?thesis
    using i(1) t1 m1 a1 a2 fin a3 n t2 m2 b1 i(2) t3 huge_literal(1) inf c1 by (intro conjI) blast+
qed

text \<open>
  The claim as it was stated fails on the run \<^verbatim>\<open>1.\<close>: it has a digit and one point,
  and the tokenizer rejects it.
\<close>

theorem C1_counterexample:
  "list_all is_num_char (js ''1.'')
   \<and> list_ex is_digit (js ''1.'')
   \<and> count_list (js ''1.'') ch_dot \<le> 1
   \<and> tokenize (js ''1.'') = Inl InvalidNumber"
  by (simp add: calc_defs)

text \<open>
  C4. Every value on the operand stack during the postfix evaluation is a finite double,
  and a number returned by \<^verbatim>\<open>evaluate\<close> is finite. The tokens of \<^verbatim>\<open>tokenize\<close> hold
  finite numbers: a literal whose value is not finite fails with NumberTooLarge. A
  binary operation whose result is not finite fails with ResultNotFinite. The unary
  branch pushes its result unchecked, and that result is finite, because the operand is.
\<close>

theorem C4_finite_values:
  "(evaluate input = Inr v \<longrightarrow> isFinite v)
   \<and> (tokenize input = Inr tokens \<longrightarrow> list_all token_finite tokens)
   \<and> (tokenize input = Inr tokens \<and> toRpn tokens = Inr rpn
        \<and> evalRpn_loop (take k rpn) [] = Inr st \<longrightarrow> list_all isFinite st)
   \<and> ((u = UPlus \<or> u = UMinus) \<and> isFinite a \<longrightarrow>
        (\<exists>r. evalRpn_loop [Op u] (a # st0) = Inr (r # st0) \<and> isFinite r))
   \<and> (is_num_char ch \<and> matches number_re (ch # takeWhile is_num_char rest)
        \<and> \<not> isFinite (Number (ch # takeWhile is_num_char rest)) \<longrightarrow>
        tokenize_loop (ch # rest) acc = Inl NumberTooLarge)
   \<and> ((w = Plus \<or> w = Minus \<or> w = Times \<or> w = Divide) \<and> binop w x y = Inr r \<and> \<not> isFinite r \<longrightarrow>
        evalRpn_loop (Op w # ts) (y # x # st0) = Inl ResultNotFinite)"
proof -
  have stack: "list_all isFinite st"
    if t: "tokenize input = Inr tokens" and r: "toRpn tokens = Inr rpn"
      and e: "evalRpn_loop (take k rpn) [] = Inr st" for tokens rpn k st
  proof -
    have "list_all token_finite tokens"
      using t tokenize_loop_finite [of "strip_ws input" "[]" tokens] by (simp add: tokenize_def)
    then have "list_all token_finite rpn"
      using r toRpn_loop_finite [of None tokens "[]" "[]" rpn] by (simp add: toRpn_def)
    then have "list_all token_finite (take k rpn)"
      by (auto simp: list_all_iff dest: in_set_takeD)
    then show ?thesis
      using evalRpn_loop_finite [OF e] by simp
  qed
  have result: "isFinite v" if ev: "evaluate input = Inr v"
  proof (cases "tokenize input")
    case (Inl e)
    then show ?thesis using ev by (simp add: evaluate_def)
  next
    case (Inr tokens)
    show ?thesis
    proof (cases "tokens = []")
      case True
      then show ?thesis using ev Inr by (auto simp: evaluate_def)
    next
      case False
      then obtain rpn where r: "toRpn tokens = Inr rpn" and er: "evalRpn rpn = Inr v"
        using ev Inr by (auto simp: evaluate_def split: sum.splits)
      from er obtain st where st: "evalRpn_loop rpn [] = Inr st" and v: "st = [v]"
        by (auto simp: evalRpn_def split: sum.splits list.splits)
      have "list_all isFinite st"
        using stack [OF Inr r, of "length rpn" st] st by simp
      then show ?thesis by (simp add: v)
    qed
  qed
  have toks: "list_all token_finite tokens" if "tokenize input = Inr tokens"
    using that tokenize_loop_finite [of "strip_ws input" "[]" tokens] by (simp add: tokenize_def)
  have unary: "\<exists>r. evalRpn_loop [Op u] (a # st0) = Inr (r # st0) \<and> isFinite r"
    if "u = UPlus \<or> u = UMinus" "isFinite a"
    using that by (auto simp: js_pos_def)
  have lit: "tokenize_loop (ch # rest) acc = Inl NumberTooLarge"
    if "is_num_char ch" "matches number_re (ch # takeWhile is_num_char rest)"
      "\<not> isFinite (Number (ch # takeWhile is_num_char rest))"
    using that by (simp add: Let_def)
  have op: "evalRpn_loop (Op w # ts) (y # x # st0) = Inl ResultNotFinite"
    if "w = Plus \<or> w = Minus \<or> w = Times \<or> w = Divide" "binop w x y = Inr r" "\<not> isFinite r"
    using that by auto
  show ?thesis
    using stack result toks unary lit op by blast
qed

theorem C4_finite_values_witness:
  "evaluate (js ''2*-3'') = Inr (Finite (- 6)) \<and> isFinite (Finite (- 6))
   \<and> tokenize (js ''2*-3'') = Inr [Num (Finite 2), Op Times, Op Minus, Num (Finite 3)]
   \<and> list_all token_finite [Num (Finite 2), Op Times, Op Minus, Num (Finite 3)]
   \<and> toRpn [Num (Finite 2), Op Times, Op Minus, Num (Finite 3)]
       = Inr [Num (Finite 2), Num (Finite 3), Op UMinus, Op Times]
   \<and> evalRpn_loop (take 3 [Num (Finite 2), Num (Finite 3), Op UMinus, Op Times]) []
       = Inr [Finite (- 3), Finite 2]
   \<and> list_all isFinite [Finite (- 3), Finite 2]
   \<and> isFinite (Finite 3)
   \<and> (\<exists>r. evalRpn_loop [Op UMinus] [Finite 3, Finite 2] = Inr [r, Finite 2] \<and> isFinite r)
   \<and> is_num_char 50
   \<and> matches number_re (50 # takeWhile is_num_char (replicate 308 48 @ js ''+1''))
   \<and> \<not> isFinite (Number (50 # takeWhile is_num_char (replicate 308 48 @ js ''+1'')))
   \<and> tokenize_loop (50 # replicate 308 48 @ js ''+1'') [] = Inl NumberTooLarge
   \<and> binop Plus (Finite (2 ^ 1023)) (Finite (2 ^ 1023)) = Inr PosInf
   \<and> \<not> isFinite PosInf
   \<and> evalRpn_loop [Op Plus] [Finite (2 ^ 1023), Finite (2 ^ 1023), Finite 2]
       = Inl ResultNotFinite"
proof -
  have tw: "takeWhile is_num_char (replicate 308 48 @ js ''+1'') = replicate 308 48"
    using takeWhile_zeros [of 43 308 "[49]"]
    by (simp add: js_def is_num_char_def is_digit_def ch_dot_def)
  have i: "is_num_char 50"
    by (simp add: is_num_char_def is_digit_def)
  have m: "matches number_re (50 # takeWhile is_num_char (replicate 308 48 @ js ''+1''))"
    unfolding tw by (rule huge_literal(1))
  have n: "\<not> isFinite (Number (50 # takeWhile is_num_char (replicate 308 48 @ js ''+1'')))"
    unfolding tw huge_literal(2) by simp
  have s: "binop Plus (Finite (2 ^ 1023)) (Finite (2 ^ 1023)) = Inr PosInf"
    using round64_overflow [of "2 ^ 1023 + 2 ^ 1023"] by (simp add: js_add_def)
  have p: "\<not> isFinite PosInf" and f3: "isFinite (Finite 3)"
    by simp_all
  have e: "evaluate (js ''2*-3'') = Inr (Finite (- 6))"
    and t: "tokenize (js ''2*-3'') = Inr [Num (Finite 2), Op Times, Op Minus, Num (Finite 3)]"
    and r: "toRpn [Num (Finite 2), Op Times, Op Minus, Num (Finite 3)]
              = Inr [Num (Finite 2), Num (Finite 3), Op UMinus, Op Times]"
    by (simp_all add: calc_defs)
  have k: "evalRpn_loop (take 3 [Num (Finite 2), Num (Finite 3), Op UMinus, Op Times]) []
             = Inr [Finite (- 3), Finite 2]"
    by simp
  note inst = C4_finite_values [of "js ''2*-3''" "Finite (- 6)"
      "[Num (Finite 2), Op Times, Op Minus, Num (Finite 3)]"
      "[Num (Finite 2), Num (Finite 3), Op UMinus, Op Times]" 3 "[Finite (- 3), Finite 2]"
      UMinus "Finite 3" "[Finite 2]" 50 "replicate 308 48 @ js ''+1''" "[]"
      Plus "Finite (2 ^ 1023)" "Finite (2 ^ 1023)" PosInf "[]"]
  have c1: "isFinite (Finite (- 6))"
    using inst e by blast
  have c2: "list_all token_finite [Num (Finite 2), Op Times, Op Minus, Num (Finite 3)]"
    using inst t by blast
  have c3: "list_all isFinite [Finite (- 3), Finite 2]"
    using inst t r k by blast
  have c4: "\<exists>r. evalRpn_loop [Op UMinus] [Finite 3, Finite 2] = Inr [r, Finite 2] \<and> isFinite r"
    using inst f3 by blast
  have c5: "tokenize_loop (50 # replicate 308 48 @ js ''+1'') [] = Inl NumberTooLarge"
    using inst i m n by blast
  have c6: "evalRpn_loop [Op Plus] [Finite (2 ^ 1023), Finite (2 ^ 1023), Finite 2]
       = Inl ResultNotFinite"
    using inst s p by blast
  show ?thesis
    using e c1 t c2 r k c3 f3 c4 i m n c5 s p c6 by (intro conjI)
qed

text \<open>
  C8, as amended. \<^verbatim>\<open>formatNumber\<close> writes a finite number \<open>v\<close> in fixed notation exactly
  when \<open>v\<close> is zero or \<^verbatim>\<open>1e-6\<close> \<open>\<le> |v| <\<close> \<^verbatim>\<open>1e12\<close> (the guard of line 32 is false; the two
  literals are the doubles \<open>10\<^sup>1\<^sup>2\<close> and the one nearest to \<open>10\<^sup>-\<^sup>6\<close>). For every such \<open>v\<close>,
  a result of \<^verbatim>\<open>evaluate\<close> or any other finite number,
  the evaluation of the formatted string succeeds and returns a finite number \<open>r\<close> with
  \<open>|r - v| \<le> |v| / 10\<^sup>1\<^sup>1\<close>: the string has the 12 significant digits of
  \<^verbatim>\<open>toPrecision(12)\<close>, and \<^verbatim>\<open>String\<close> and the tokenizer's \<^verbatim>\<open>Number\<close> lose nothing more.
  Every other finite number \<open>w\<close> is written with an exponent, and the evaluation of that
  string fails at the letter \<^verbatim>\<open>e\<close>.
\<close>

theorem C8_round_trip_fixed_notation:
  "(evaluate input = Inr v \<and> (val v = 0 \<or> (val lit_1e_6 \<le> \<bar>val v\<bar> \<and> \<bar>val v\<bar> < 10 ^ 12)) \<longrightarrow>
      (\<exists>r. evaluate (formatNumber v) = Inr r \<and> isFinite r
           \<and> \<bar>val r - val v\<bar> \<le> \<bar>val v\<bar> / 10 ^ 11))
   \<and> (isFinite v \<and> (val v = 0 \<or> (val lit_1e_6 \<le> \<bar>val v\<bar> \<and> \<bar>val v\<bar> < 10 ^ 12)) \<longrightarrow>
      (\<exists>r. evaluate (formatNumber v) = Inr r \<and> isFinite r
           \<and> \<bar>val r - val v\<bar> \<le> \<bar>val v\<bar> / 10 ^ 11))
   \<and> (isFinite v \<longrightarrow>
        ((val v = 0 \<or> (val lit_1e_6 \<le> \<bar>val v\<bar> \<and> \<bar>val v\<bar> < 10 ^ 12))
           \<longleftrightarrow> \<not> (\<not> strict_eq (Math_abs v) (Finite 0)
                    \<and> (js_ge (Math_abs v) lit_1e12 \<or> js_lt (Math_abs v) lit_1e_6))))
   \<and> (isFinite w \<and> val w \<noteq> 0 \<and> \<not> (val lit_1e_6 \<le> \<bar>val w\<bar> \<and> \<bar>val w\<bar> < 10 ^ 12) \<longrightarrow>
        evaluate (formatNumber w) = Inl (UnexpectedCharacter ch_e))
   \<and> lit_1e12 = Finite (10 ^ 12)
   \<and> (\<exists>l. lit_1e_6 = Finite l \<and> 0 < l \<and> \<bar>l - 1 / 10 ^ 6\<bar> \<le> (1 / 10 ^ 6) / 2 ^ 53)"
  using round_trip_fixed [of v] fixed_guard [of v] round_trip_exponent [of w] lit_1e12_val
    lit_1e_6_val evaluate_finite [of input v]
  by blast

theorem C8_round_trip_fixed_notation_witness:
  "isFinite (Finite (- (5 / 2)))
   \<and> val lit_1e_6 \<le> \<bar>val (Finite (- (5 / 2)))\<bar> \<and> \<bar>val (Finite (- (5 / 2)))\<bar> < 10 ^ 12
   \<and> evaluate (js ''-5/2'') = Inr (Finite (- (5 / 2)))
   \<and> formatNumber (Finite (- (5 / 2))) = js ''-2.5''
   \<and> evaluate (js ''-2.5'') = Inr (Finite (- (5 / 2)))
   \<and> (\<exists>r. evaluate (formatNumber (Finite (- (5 / 2)))) = Inr r \<and> isFinite r
          \<and> \<bar>val r - val (Finite (- (5 / 2)))\<bar> \<le> \<bar>val (Finite (- (5 / 2)))\<bar> / 10 ^ 11)
   \<and> isFinite (Finite (10 ^ 13)) \<and> val (Finite (10 ^ 13)) \<noteq> 0
   \<and> \<not> \<bar>val (Finite (10 ^ 13))\<bar> < 10 ^ 12
   \<and> evaluate (formatNumber (Finite (10 ^ 13))) = Inl (UnexpectedCharacter ch_e)"
proof -
  note inst = C8_round_trip_fixed_notation [of "js ''-5/2''" "Finite (- (5 / 2))" "Finite (10 ^ 13)"]
  have big: "isFinite (Finite (10 ^ 13))" "val (Finite (10 ^ 13)) \<noteq> 0"
    "\<not> \<bar>val (Finite (10 ^ 13))\<bar> < 10 ^ 12"
    by simp_all
  have rej: "evaluate (formatNumber (Finite (10 ^ 13))) = Inl (UnexpectedCharacter ch_e)"
    using inst big by blast
  obtain l where l: "lit_1e_6 = Finite l" "0 < l" "\<bar>l - 1 / 10 ^ 6\<bar> \<le> (1 / 10 ^ 6) / 2 ^ 53"
    using lit_1e_6_val by blast
  have le: "l \<le> 5 / 2" using abs_diff_bounds [OF l(3)] by simp
  have rng: "val lit_1e_6 \<le> \<bar>val (Finite (- (5 / 2)))\<bar>" "\<bar>val (Finite (- (5 / 2)))\<bar> < 10 ^ 12"
    using le by (simp_all add: l(1))
  have il: "ilog 10 (5 / 2) = 0"
    by (rule ilog_eqI) simp_all
  have sci: "sci_digits 12 (5 / 2) = (250000000000, 0)"
    by (simp add: sci_digits_def il Let_def)
  have dig: "digits_of 250000000000 = js ''250000000000''" "digits_of 25 = js ''25''"
    by (simp_all add: digits_of.simps digit_char_def js_def)
  have tp: "toPrecision 12 (Finite (- (5 / 2))) = js ''-2.50000000000''"
    by (simp add: toPrecision_def sci dig Let_def) (simp add: js_def char_defs)
  have num: "Number (js ''-2.50000000000'') = Finite (- (5 / 2))"
    by (simp add: calc_defs round64_five_halves)
  have ce: "\<lceil>5 / 2 :: rat\<rceil> = 3"
    by (intro ceiling_unique) simp_all
  have d1: "digits_at (5 / 2) (Suc 0) = None"
    by (simp add: digits_at_def il Let_def ce)
  have d2: "digits_at (5 / 2) (Suc (Suc 0)) = Some (25, 1)"
    by (simp add: digits_at_def il Let_def round64_five_halves)
  have sh: "shortest_digits (5 / 2) 1 = (25, 1, 2)"
    by (simp add: shortest_digits.simps [of _ "Suc 0"] shortest_digits.simps [of _ "Suc (Suc 0)"] d1 d2)
  have ts: "toString (Finite (- (5 / 2))) = js ''-2.5''"
    using sh by (simp add: toString_def dig Let_def) (simp add: js_def char_defs)
  have rp: "replace_at_end point_zeros_re [] (js ''-2.5'') = js ''-2.5''"
    by (simp add: js_def point_zeros_re_def Plus1_def char_defs)
  have "formatNumber (Finite (- (5 / 2)))
          = replace_at_end point_zeros_re [] (toString (Number (toPrecision 12 (Finite (- (5 / 2))))))"
    using formatNumber_fixed(2) [OF _ l(1) le] by simp
  then have fm: "formatNumber (Finite (- (5 / 2))) = js ''-2.5''"
    by (simp only: tp num ts rp)
  have e1: "evaluate (js ''-5/2'') = Inr (Finite (- (5 / 2)))"
    by (simp add: calc_defs round64_five_halves)
  have e2: "evaluate (js ''-2.5'') = Inr (Finite (- (5 / 2)))"
    by (simp add: calc_defs round64_five_halves)
  have fin: "isFinite (Finite (- (5 / 2)))"
    by simp
  have ex: "\<exists>r. evaluate (formatNumber (Finite (- (5 / 2)))) = Inr r \<and> isFinite r
          \<and> \<bar>val r - val (Finite (- (5 / 2)))\<bar> \<le> \<bar>val (Finite (- (5 / 2)))\<bar> / 10 ^ 11"
    using inst e1 rng by blast
  show ?thesis
    using fin rng e1 fm e2 ex big rej by (intro conjI)
qed

text \<open>
  The claim as it was stated fails on a result that is formatted with an exponent:
  \<^verbatim>\<open>1000000*1000000\<close> evaluates to \<open>10\<^sup>1\<^sup>2\<close>, which is formatted as \<^verbatim>\<open>1e+12\<close>, and the
  tokenizer rejects the letter.
\<close>

theorem C8_counterexample:
  "evaluate (js ''1000000*1000000'') = Inr (Finite (10 ^ 12))
   \<and> isFinite (Finite (10 ^ 12))
   \<and> formatNumber (Finite (10 ^ 12)) = js ''1e+12''
   \<and> evaluate (js ''1e+12'') = Inl (UnexpectedCharacter ch_e)
   \<and> evaluate (formatNumber (Finite (10 ^ 12))) = Inl (UnexpectedCharacter ch_e)"
proof -
  have il: "ilog 10 1000000000000 = 12"
    by (rule ilog_eqI) simp_all
  have sci: "sci_digits 11 (10 ^ 12) = (10000000000, 12)"
    by (simp add: sci_digits_def il Let_def)
  have dig: "digits_of 10000000000 = js ''10000000000''" "digits_of 12 = js ''12''"
    by (simp_all add: digits_of.simps digit_char_def js_def)
  have te: "toExponential 10 (Finite (10 ^ 12)) = js ''1.0000000000e+12''"
    using sci
    by (simp add: toExponential_def dig point_after_first_def exp_suffix_def Let_def)
       (simp add: js_def char_defs)
  have rf: "replace_first zeros_e_re [ch_e] (js ''1.0000000000e+12'') = js ''1e+12''"
    by (simp add: js_def zeros_e_re_def Plus1_def Opt_def char_defs longest_match_def upt_rec)
  have fm: "formatNumber (Finite (10 ^ 12)) = js ''1e+12''"
    by (simp add: formatNumber_def lit_1e12_val strict_eq_def js_ge_def js_lt_def Let_def
        te [simplified] rf del: replace_first.simps)
  have e1: "evaluate (js ''1000000*1000000'') = Inr (Finite (10 ^ 12))"
    by (simp add: calc_defs)
  have e2: "evaluate (js ''1e+12'') = Inl (UnexpectedCharacter ch_e)"
    by (simp add: calc_defs)
  have no: "evaluate (formatNumber (Finite (10 ^ 12))) = Inl (UnexpectedCharacter ch_e)"
    unfolding fm by (rule e2)
  show ?thesis
    using e1 fm e2 no by simp
qed

end
